theory Spec2Isabelle
  imports Main "HOL-Library.Word"
begin

section \<open>Data of blaster.go\<close>

text \<open>
  A Go \<open>error\<close> is modelled by its message; the interface value \<open>nil\<close> is \<open>None\<close> of
  \<open>error option\<close>. A \<open>float64\<close> is only stored and passed on by this file, never
  computed with, so it is carried as its 64-bit pattern.
\<close>

type_synonym error = string

type_synonym float64 = "64 word"

datatype signal = os_Interrupt

text \<open>
  A Go channel made by \<open>make(chan T, n)\<close>: its capacity, the values buffered in it and
  whether it has been closed. A receive is ready when a value is buffered or the channel
  is closed.
\<close>

record 'a chan =
  cap :: nat
  buf :: "'a list"
  closed :: bool

definition make_chan :: "nat \<Rightarrow> 'a chan" where
  "make_chan n = \<lparr>cap = n, buf = [], closed = False\<rparr>"

definition recv_ready :: "'a chan \<Rightarrow> bool" where
  "recv_ready c = (buf c \<noteq> [] \<or> closed c)"

text \<open>
  The delivery of \<open>signal.Notify\<close>: a send that never blocks; the value is dropped when
  the buffer is full.
\<close>

definition try_send :: "'a \<Rightarrow> 'a chan \<Rightarrow> 'a chan" where
  "try_send v c = (if length (buf c) < cap c then c\<lparr>buf := buf c @ [v]\<rparr> else c)"

text \<open>
  What the goroutine that runs \<open>Start\<close> does to the outside, in program order: the
  writes to \<open>b.out\<close> through \<open>fmt\<close> (format string and arguments, as the call site
  gives them) and the calls of methods of \<open>Blaster\<close> that are not defined in blaster.go.
\<close>

datatype arg = Uint64 "64 word" | Err error

datatype bmethod =
    loadConfigViper | openDataFile | closeDataFile | openLogAndInit | flushAndCloseLog
  | addSegment float64
  | startTickerLoop | startMainLoop | startErrorLoop | startWorkers | startLogLoop
  | startStatusLoop | startRateLoop
  | printRatePrompt
  | printStatus bool

datatype effect = Fprintln string | Fprintf string "arg list" | Call bmethod

datatype goroutine = Waiting | Exited

text \<open>
  The struct \<open>Blaster\<close> (the fields this file reads or writes), followed by the state of
  the run around it: the context \<open>ctx\<close> whose cancel function was given to \<open>New\<close>,
  the registration made by \<open>signal.Notify\<close>, the goroutine launched by \<open>New\<close>,
  and the control state of \<open>Start\<close> (whether \<open>start\<close> has been entered, the index
  of its next statement, the deferred calls, the returned error, the effects so far).
  The two \<open>sync.WaitGroup\<close>s are their counters.
\<close>

record 'w Blaster =
  config_Data :: string
  rate :: float64
  dataHeaders :: "string list"
  dataFinishedChannel :: "unit chan"
  workersFinishedChannel :: "unit chan"
  changeRateChannel :: "float64 chan"
  signalChannel :: "signal chan"
  mainWait :: nat
  workerWait :: nat
  workerTypes :: "string \<rightharpoonup> 'w"
  errorsIgnored :: "64 word"
  err :: "error option"
  ctx_done :: bool
  notify :: bool
  signal_goroutine :: goroutine
  in_start :: bool
  pc :: nat
  deferred :: "bmethod list"
  returned :: "error option option"
  effects :: "effect list"

section \<open>New, Exit, RegisterWorkerType\<close>

text \<open>
  \<open>b.cancel()\<close>: the \<open>context.CancelFunc\<close> handed to \<open>New\<close> together with \<open>ctx\<close>;
  it is taken to be the cancel function of that context, which is also the one later
  passed to \<open>Start\<close>.
\<close>

definition cancel :: "'w Blaster \<Rightarrow> 'w Blaster" where
  "cancel b = b\<lparr>ctx_done := True\<rparr>"

text \<open>
  \<open>New\<close> (lines 66-97). The channels of payload types declared elsewhere
  (\<open>mainChannel\<close>, \<open>errorChannel\<close>, \<open>workerChannel\<close>, \<open>logChannel\<close>) are not used by
  this file and are left out. The goroutine launched at line 88 starts out waiting in
  its \<open>select\<close>.
\<close>

definition New :: "'w Blaster" where
  "New = \<lparr>
     config_Data = [],
     rate = 0,
     dataHeaders = [],
     dataFinishedChannel = make_chan 0,
     workersFinishedChannel = make_chan 0,
     changeRateChannel = make_chan 1,
     signalChannel = make_chan 1,
     mainWait = 0,
     workerWait = 0,
     workerTypes = Map.empty,
     errorsIgnored = 0,
     err = None,
     ctx_done = False,
     notify = True,
     signal_goroutine = Waiting,
     in_start = False,
     pc = 0,
     deferred = [],
     returned = None,
     effects = []\<rparr>"

text \<open>\<open>Exit\<close> (lines 99-102): \<open>signal.Stop\<close>, then \<open>b.cancel()\<close>.\<close>

definition Exit :: "'w Blaster \<Rightarrow> 'w Blaster" where
  "Exit b = cancel (b\<lparr>notify := False\<rparr>)"

text \<open>\<open>RegisterWorkerType\<close> (lines 179-181): \<open>b.workerTypes[key] = workerFunc\<close>.\<close>

definition RegisterWorkerType :: "string \<Rightarrow> 'w \<Rightarrow> 'w Blaster \<Rightarrow> 'w Blaster" where
  "RegisterWorkerType key workerFunc b = b\<lparr>workerTypes := (workerTypes b)(key \<mapsto> workerFunc)\<rparr>"

section \<open>Start\<close>

text \<open>
  The methods \<open>loadConfigViper\<close>, \<open>openDataFile\<close> and \<open>openLogAndInit\<close> are defined
  elsewhere; what they return, and the two fields \<open>loadConfigViper\<close> leaves behind that
  this file reads, are parameters of a run.
\<close>

record env =
  loadConfigViper_err :: "error option"
  loaded_Data :: string
  loaded_rate :: float64
  openDataFile_res :: "error + string list"
  openLogAndInit_err :: "error option"

definition call :: "bmethod \<Rightarrow> 'w Blaster \<Rightarrow> 'w Blaster" where
  "call m b = b\<lparr>effects := effects b @ [Call m]\<rparr>"

definition fprint :: "effect \<Rightarrow> 'w Blaster \<Rightarrow> 'w Blaster" where
  "fprint w b = b\<lparr>effects := effects b @ [w]\<rparr>"

text \<open>Returning from \<open>Start\<close>: the deferred calls run, last deferred first.\<close>

definition return :: "error option \<Rightarrow> 'w Blaster \<Rightarrow> 'w Blaster" where
  "return r b = b\<lparr>effects := effects b @ map Call (deferred b), deferred := [], returned := Some r\<rparr>"

definition no_data_file :: error where
  "no_data_file = ''No data file specified. Use --config to view current config.''"

text \<open>
  \<open>Start\<close> (lines 104-132) up to the point where it calls \<open>b.start(ctx)\<close>: either it
  has returned an error, or \<open>start\<close> is entered. The two plain assignments of
  \<open>b.out\<close> and \<open>b.rateInputReader\<close> are not modelled: \<open>NewThreadSafeWriter\<close> only
  wraps standard output in a mutex, so that every write below is one atomic append.
  When \<open>loadConfigViper\<close> returns \<open>nil\<close> it has set \<open>b.config\<close>.
\<close>

definition Start :: "env \<Rightarrow> 'w Blaster \<Rightarrow> 'w Blaster" where
  "Start ev b0 =
    (let b1 = call loadConfigViper b0 in
     case loadConfigViper_err ev of
       Some e \<Rightarrow> return (Some e) b1
     | None \<Rightarrow>
        (let b2 = b1\<lparr>config_Data := loaded_Data ev, rate := loaded_rate ev\<rparr> in
         if config_Data b2 = [] then return (Some no_data_file) b2
         else
          (let b3 = call openDataFile b2 in
           case openDataFile_res ev of
             Inl e \<Rightarrow> return (Some e) b3
           | Inr headers \<Rightarrow>
              (let b4 = b3\<lparr>dataHeaders := headers, deferred := closeDataFile # deferred b3\<rparr>;
                   b5 = call openLogAndInit b4 in
               case openLogAndInit_err ev of
                 Some e \<Rightarrow> return (Some e) b5
               | None \<Rightarrow> b5\<lparr>deferred := flushAndCloseLog # deferred b5, in_start := True\<rparr>))))"

section \<open>start\<close>

text \<open>The final summary (lines 165-174), as the effects it appends.\<close>

definition ignored_fmt :: string where
  "ignored_fmt = ''%d errors were ignored because we were already exiting with an error.'' @ [CHR 0x0A]"

definition fatal_fmt :: string where
  "fatal_fmt = ''Fatal error: %v'' @ [CHR 0x0A]"

definition summary :: "error option \<Rightarrow> 64 word \<Rightarrow> effect list" where
  "summary e n =
    (case e of
       Some er \<Rightarrow>
         [Fprintln []] @
         (if 0 < n then [Fprintf ignored_fmt [Uint64 n]] else []) @
         [Fprintf fatal_fmt [Err er]]
     | None \<Rightarrow> [Call (printStatus True)])"

text \<open>The statements of \<open>start\<close> (lines 134-177), one per line of the source.\<close>

datatype stmt =
    AddSegment
  | Invoke bmethod
  | Select_Done_dataFinished
  | Println string
  | Wait_workerWait
  | Close_workersFinished
  | Wait_mainWait
  | Summary
  | Return_nil

definition start_body :: "stmt list" where
  "start_body =
    [AddSegment,
     Invoke startTickerLoop,
     Invoke startMainLoop,
     Invoke startErrorLoop,
     Invoke startWorkers,
     Invoke startLogLoop,
     Invoke startStatusLoop,
     Invoke startRateLoop,
     Invoke printRatePrompt,
     Select_Done_dataFinished,
     Println ''Waiting for workers to finish...'',
     Wait_workerWait,
     Println ''All workers finished.'',
     Close_workersFinished,
     Println ''Waiting for processes to finish...'',
     Wait_mainWait,
     Println ''All processes finished.'',
     Summary,
     Return_nil]"

text \<open>
  One statement of \<open>start\<close>; \<open>None\<close> when the statement cannot proceed in this state
  (a blocked \<open>select\<close> or \<open>Wait\<close>) or panics (closing a closed channel).
  \<open>Return_nil\<close> is \<open>return nil\<close> of \<open>start\<close> followed by \<open>return b.start(ctx)\<close> of
  \<open>Start\<close>.
\<close>

fun exec_stmt :: "stmt \<Rightarrow> 'w Blaster \<Rightarrow> 'w Blaster option" where
  "exec_stmt AddSegment b = Some (call (addSegment (rate b)) b)"
| "exec_stmt (Invoke m) b = Some (call m b)"
| "exec_stmt Select_Done_dataFinished b =
     (if ctx_done b \<or> recv_ready (dataFinishedChannel b) then Some b else None)"
| "exec_stmt (Println s) b = Some (fprint (Fprintln s) b)"
| "exec_stmt Wait_workerWait b = (if workerWait b = 0 then Some b else None)"
| "exec_stmt Close_workersFinished b =
     (if closed (workersFinishedChannel b) then None
      else Some (b\<lparr>workersFinishedChannel := (workersFinishedChannel b)\<lparr>closed := True\<rparr>\<rparr>))"
| "exec_stmt Wait_mainWait b = (if mainWait b = 0 then Some b else None)"
| "exec_stmt Summary b =
     Some (b\<lparr>effects := effects b @ summary (err b) (errorsIgnored b)\<rparr>)"
| "exec_stmt Return_nil b = Some (return None b)"

definition start :: "'w Blaster \<Rightarrow> 'w Blaster option" where
  "start b =
    (if in_start b \<and> returned b = None \<and> pc b < length start_body
     then map_option (\<lambda>b'. b'\<lparr>pc := Suc (pc b)\<rparr>) (exec_stmt (start_body ! pc b) b)
     else None)"

section \<open>The other loops\<close>

text \<open>
  Modelled from the spec: the Error Escalator's \<open>Report(err)\<close> (section 4.5); the error
  loop that implements it is not in blaster.go. First invocation: records \<open>err\<close> as the
  engine's fatal error and triggers global cancellation. Every subsequent invocation:
  increments the ignored-error counter and discards the error.
\<close>

definition Report :: "error \<Rightarrow> 'w Blaster \<Rightarrow> 'w Blaster" where
  "Report e b =
    (case err b of
       None \<Rightarrow> cancel (b\<lparr>err := Some e\<rparr>)
     | Some _ \<Rightarrow> b\<lparr>errorsIgnored := errorsIgnored b + 1\<rparr>)"

text \<open>
  Modelled from the spec: the Rate Controller's \<open>SetRate(newRate)\<close> (section 4.2); no
  sender on \<open>changeRateChannel\<close> is in blaster.go. The request is accepted through the
  pending-change slot; if a change is already pending it is overwritten.
\<close>

definition SetRate :: "float64 \<Rightarrow> 'w Blaster \<Rightarrow> 'w Blaster" where
  "SetRate newRate b =
    (let c = changeRateChannel b;
         c' = (if length (buf c) < cap c then c else c\<lparr>buf := butlast (buf c)\<rparr>)
     in b\<lparr>changeRateChannel := c'\<lparr>buf := buf c' @ [newRate]\<rparr>\<rparr>)"

section \<open>Runs\<close>

text \<open>
  A run is a sequence of events, each one atomic step of one party. Beside the calls of
  the public methods (and of the cancel function, which the caller of \<open>New\<close> holds too)
  and the statements of \<open>start\<close>, taken by \<open>Coordinator\<close>, the events are: the
  operating system delivering an interrupt; the goroutine of \<open>New\<close> taking one of the two
  cases of its \<open>select\<close>; and the loops defined elsewhere acting on what this file shares
  with them (the Dispatch Loop closing \<open>dataFinishedChannel\<close>, \<open>Add(1)\<close> and \<open>Done()\<close>
  on the two wait groups, the Rate Controller receiving the pending rate change and making
  it the current rate, \<open>Report\<close> and \<open>SetRate\<close>). \<open>None\<close>: the event cannot happen
  in this state, or it ends the process (a panic such as a second \<open>close\<close> or a negative
  wait-group counter; an interrupt after \<open>signal.Stop\<close>, which is no longer relayed to
  \<open>signalChannel\<close>). \<open>Start\<close> is called at most once on a \<open>Blaster\<close>.
\<close>

datatype 'w event =
    CallStart env
  | Coordinator
  | CallExit
  | CallCancel
  | CallRegisterWorkerType string 'w
  | Interrupt
  | Goroutine_signal
  | Goroutine_Done
  | DataFinished
  | WorkerAdd
  | WorkerDone
  | MainAdd
  | MainDone
  | TakeRate
  | CallReport error
  | CallSetRate float64

fun step :: "'w event \<Rightarrow> 'w Blaster \<Rightarrow> 'w Blaster option" where
  "step (CallStart ev) b =
     (if in_start b \<or> returned b \<noteq> None then None else Some (Start ev b))"
| "step Coordinator b = start b"
| "step CallExit b = Some (Exit b)"
| "step CallCancel b = Some (cancel b)"
| "step (CallRegisterWorkerType key workerFunc) b = Some (RegisterWorkerType key workerFunc b)"
| "step Interrupt b =
     (if notify b then Some (b\<lparr>signalChannel := try_send os_Interrupt (signalChannel b)\<rparr>)
      else None)"
| "step Goroutine_signal b =
     (if signal_goroutine b = Waiting \<and> buf (signalChannel b) \<noteq> []
      then Some (cancel (b\<lparr>signalChannel := (signalChannel b)\<lparr>buf := tl (buf (signalChannel b))\<rparr>,
                           signal_goroutine := Exited\<rparr>))
      else None)"
| "step Goroutine_Done b =
     (if signal_goroutine b = Waiting \<and> ctx_done b
      then Some (b\<lparr>signal_goroutine := Exited\<rparr>)
      else None)"
| "step DataFinished b =
     (if closed (dataFinishedChannel b) then None
      else Some (b\<lparr>dataFinishedChannel := (dataFinishedChannel b)\<lparr>closed := True\<rparr>\<rparr>))"
| "step WorkerAdd b = Some (b\<lparr>workerWait := Suc (workerWait b)\<rparr>)"
| "step WorkerDone b =
     (if workerWait b = 0 then None else Some (b\<lparr>workerWait := workerWait b - 1\<rparr>))"
| "step MainAdd b = Some (b\<lparr>mainWait := Suc (mainWait b)\<rparr>)"
| "step MainDone b =
     (if mainWait b = 0 then None else Some (b\<lparr>mainWait := mainWait b - 1\<rparr>))"
| "step TakeRate b =
     (if buf (changeRateChannel b) = [] then None
      else Some (b\<lparr>rate := hd (buf (changeRateChannel b)),
                   changeRateChannel := (changeRateChannel b)\<lparr>buf := tl (buf (changeRateChannel b))\<rparr>\<rparr>))"
| "step (CallReport e) b = Some (Report e b)"
| "step (CallSetRate r) b = Some (SetRate r b)"

fun exec :: "'w event list \<Rightarrow> 'w Blaster \<Rightarrow> 'w Blaster option" where
  "exec [] b = Some b"
| "exec (e # es) b = (case step e b of None \<Rightarrow> None | Some b' \<Rightarrow> exec es b')"

section \<open>Observing a run\<close>

text \<open>
  The statements of \<open>start\<close> that a run executes, in the order of their execution, each
  with the state it was executed in.
\<close>

fun coordinator_trace :: "'w event list \<Rightarrow> 'w Blaster \<Rightarrow> (stmt \<times> 'w Blaster) list" where
  "coordinator_trace [] b = []"
| "coordinator_trace (e # es) b =
     (case step e b of
        None \<Rightarrow> []
      | Some b' \<Rightarrow>
          (if e = Coordinator then [(start_body ! pc b, b)] else []) @ coordinator_trace es b')"

text \<open>
  The two forms of the final summary are told apart by the effect that only they have:
  the line of the fatal error, or the call \<open>b.printStatus(true)\<close>.
\<close>

fun is_summary :: "effect \<Rightarrow> bool" where
  "is_summary (Fprintf f as) = (f = fatal_fmt)"
| "is_summary (Call m) = (m = printStatus True)"
| "is_summary (Fprintln s) = False"

text \<open>A run from \<open>New\<close> has executed the statement \<open>s\<close> of \<open>start\<close>.\<close>

definition executed :: "stmt \<Rightarrow> 'w event list \<Rightarrow> bool" where
  "executed s es = (s \<in> fst ` set (coordinator_trace es (New :: 'w Blaster)))"

text \<open>
  The events left for a run to end once the context is cancelled: the executors at work
  finish, the consumer loops finish, and \<open>start\<close> takes its remaining statements.
\<close>

definition drain :: "'w Blaster \<Rightarrow> 'w event list" where
  "drain b =
     replicate (workerWait b) WorkerDone @ replicate (mainWait b) MainDone
     @ replicate (length start_body - pc b) Coordinator"

text \<open>
  An interrupt has been relayed to \<open>signalChannel\<close> and the goroutine of \<open>New\<close> has not
  taken it yet.
\<close>

definition cancel_pending :: "'w Blaster \<Rightarrow> bool" where
  "cancel_pending b = (signal_goroutine b = Waiting \<and> buf (signalChannel b) \<noteq> [])"

text \<open>
  The components of the specification (section 2) and the statement of \<open>start\<close> that
  starts each: the ticker loop paces the dispatch (Rate Controller), the main loop reads
  and dispatches (Dispatch Loop). \<open>spec_startup_order\<close> is the order that section 4.8 of
  the specification gives.
\<close>

datatype component =
  RateController | DispatchLoop | WorkerPool | LoggingPipeline | ErrorEscalator | StatusReporter

fun component_of :: "stmt \<Rightarrow> component option" where
  "component_of (Invoke startTickerLoop) = Some RateController"
| "component_of (Invoke startMainLoop) = Some DispatchLoop"
| "component_of (Invoke startWorkers) = Some WorkerPool"
| "component_of (Invoke startLogLoop) = Some LoggingPipeline"
| "component_of (Invoke startErrorLoop) = Some ErrorEscalator"
| "component_of (Invoke startStatusLoop) = Some StatusReporter"
| "component_of _ = None"

definition spec_startup_order :: "component list" where
  "spec_startup_order =
    [RateController, DispatchLoop, WorkerPool, LoggingPipeline, ErrorEscalator, StatusReporter]"

definition components_started :: "'w event list \<Rightarrow> component list" where
  "components_started es =
     List.map_filter component_of (map fst (coordinator_trace es (New :: 'w Blaster)))"

definition prelude :: "effect list" where
  "prelude = [Call loadConfigViper, Call openDataFile, Call openLogAndInit]"

section \<open>Invariants of a run\<close>

text \<open>
  Control: \<open>start\<close> has 19 statements; once entered it has returned exactly when all of
  them are done, and then with \<open>nil\<close>; before \<open>Start\<close> is called nothing has happened
  yet; only the two closing calls are ever deferred.
\<close>

definition ctl_inv :: "'w Blaster \<Rightarrow> bool" where
  "ctl_inv b =
    (pc b \<le> 19
     \<and> (in_start b \<longrightarrow> returned b = (if pc b < 19 then None else Some None))
     \<and> (\<not> in_start b \<longrightarrow> pc b = 0)
     \<and> (\<not> in_start b \<longrightarrow> returned b = None \<longrightarrow> effects b = [] \<and> deferred b = [])
     \<and> set (deferred b) \<subseteq> {closeDataFile, flushAndCloseLog})"

text \<open>
  \<open>workersFinishedChannel\<close> is closed exactly from statement 14 of \<open>start\<close> on.
\<close>

definition wf_inv :: "'w Blaster \<Rightarrow> bool" where
  "wf_inv b = (closed (workersFinishedChannel b) = (13 < pc b))"

text \<open>
  Errors have been ignored only if a fatal error is recorded.
\<close>

definition err_inv :: "'w Blaster \<Rightarrow> bool" where
  "err_inv b = (errorsIgnored b \<noteq> 0 \<longrightarrow> err b \<noteq> None)"

text \<open>
  Once \<open>signal.Stop\<close> has been called, or the goroutine of \<open>New\<close> has left its
  \<open>select\<close>, the context is cancelled.
\<close>

definition sig_inv :: "'w Blaster \<Rightarrow> bool" where
  "sig_inv b = ((\<not> notify b \<longrightarrow> ctx_done b) \<and> (signal_goroutine b = Exited \<longrightarrow> ctx_done b)
      \<and> cap (signalChannel b) = 1)"

text \<open>
  The pending-change slot holds at most one rate.
\<close>

definition rate_inv :: "'w Blaster \<Rightarrow> bool" where
  "rate_inv b = (cap (changeRateChannel b) = 1 \<and> length (buf (changeRateChannel b)) \<le> 1)"

text \<open>
  A summary has been printed exactly when \<open>start\<close> is past its summary statement, and
  then once.
\<close>

definition sum_inv :: "'w Blaster \<Rightarrow> bool" where
  "sum_inv b = (ctl_inv b \<and> length (filter is_summary (effects b)) = (if 17 < pc b then 1 else 0))"

text \<open>
  Whenever \<open>start\<close> has been entered, the effects begin with the three calls of
  \<open>Start\<close>.
\<close>

definition pre_inv :: "'w Blaster \<Rightarrow> bool" where
  "pre_inv b = (ctl_inv b \<and> (in_start b \<longrightarrow> (\<exists>xs. effects b = prelude @ xs)))"

section \<open>Example runs\<close>

text \<open>
  A configuration that names a data file, with a source and a log that open; and one
  whose data file is missing.
\<close>

definition env_ok :: env where
  "env_ok = \<lparr>loadConfigViper_err = None, loaded_Data = ''data.csv'', loaded_rate = 1,
     openDataFile_res = Inr [''id'', ''name''], openLogAndInit_err = None\<rparr>"

definition env_no_data :: env where
  "env_no_data = \<lparr>loadConfigViper_err = None, loaded_Data = [], loaded_rate = 1,
     openDataFile_res = Inr [''id'', ''name''], openLogAndInit_err = None\<rparr>"

text \<open>
  A run to normal completion: one worker type registered, one consumer loop and one
  executor at work when the data ends.
\<close>

definition run_ok :: "nat event list" where
  "run_ok =
    [CallRegisterWorkerType ''dummy'' 0, CallStart env_ok,
     Coordinator, Coordinator, Coordinator, Coordinator, Coordinator, Coordinator,
     Coordinator, Coordinator, Coordinator,
     MainAdd, WorkerAdd, DataFinished,
     Coordinator, Coordinator, WorkerDone, Coordinator, Coordinator, Coordinator, Coordinator,
     MainDone, Coordinator, Coordinator, Coordinator, Coordinator]"

text \<open>
  Runs in which failures are reported: one failure only; three failures; two failures
  right after the start.
\<close>

definition run_fatal :: "nat event list" where
  "run_fatal =
    [CallStart env_ok,
     Coordinator, Coordinator, Coordinator, Coordinator, Coordinator, Coordinator,
     Coordinator, Coordinator, Coordinator,
     CallReport ''boom'',
     Coordinator, Coordinator, Coordinator, Coordinator, Coordinator, Coordinator,
     Coordinator, Coordinator, Coordinator, Coordinator]"

definition run_ignored :: "nat event list" where
  "run_ignored =
    [CallStart env_ok,
     Coordinator, Coordinator, Coordinator, Coordinator, Coordinator, Coordinator,
     Coordinator, Coordinator, Coordinator,
     CallReport ''boom'', CallReport ''later'', CallReport ''last'',
     Coordinator, Coordinator, Coordinator, Coordinator, Coordinator, Coordinator,
     Coordinator, Coordinator, Coordinator, Coordinator]"

definition run_reports :: "nat event list" where
  "run_reports = [CallStart env_ok, Coordinator, CallReport ''first'', CallReport ''second'']"

text \<open>
  A run with two executors at work, which is then interrupted (\<open>run_busy\<close>, an
  \<open>Interrupt\<close>, \<open>run_shutdown\<close>); two rate changes in a row; the startup alone.
\<close>

definition run_busy :: "nat event list" where
  "run_busy =
    [CallStart env_ok,
     Coordinator, Coordinator, Coordinator, Coordinator, Coordinator, Coordinator,
     Coordinator, Coordinator, Coordinator,
     MainAdd, WorkerAdd, WorkerAdd]"

definition run_shutdown :: "nat event list" where
  "run_shutdown =
    [Goroutine_signal, Coordinator, Coordinator, WorkerDone, WorkerDone,
     Coordinator, Coordinator, Coordinator, Coordinator,
     MainDone, Coordinator, Coordinator, Coordinator, Coordinator]"

definition run_rates :: "nat event list" where
  "run_rates = [CallSetRate 5, CallSetRate 7]"

definition run_startup :: "nat event list" where
  "run_startup =
    [CallStart env_ok,
     Coordinator, Coordinator, Coordinator, Coordinator, Coordinator, Coordinator,
     Coordinator, Coordinator, Coordinator]"

section \<open>Properties of runs\<close>

subsection \<open>Control of \<open>start\<close>\<close>

lemmas simple_defs = call_def fprint_def return_def cancel_def Exit_def RegisterWorkerType_def
  Report_def SetRate_def try_send_def recv_ready_def make_chan_def

lemma exec_append:
  "exec (xs @ ys) b = (case exec xs b of None \<Rightarrow> None | Some b' \<Rightarrow> exec ys b')"
  by (induction xs arbitrary: b) (auto split: option.splits)

lemma exec_stmt_pc: "exec_stmt s b = Some b' \<Longrightarrow> pc b' = pc b"
  by (cases s) (auto simp: simple_defs split: if_splits)

lemma start_pc: "start b = Some b' \<Longrightarrow> pc b' = Suc (pc b)"
  by (auto simp: start_def split: if_splits)

lemma Start_pc: "pc (Start ev b) = pc b"
  by (simp add: Start_def Let_def simple_defs split: option.splits sum.splits)

lemma step_pc: "step e b = Some b' \<Longrightarrow> e \<noteq> Coordinator \<Longrightarrow> pc b' = pc b"
  by (cases e) (auto simp: simple_defs Start_pc Let_def split: if_splits option.splits)

lemma crossing:
  "exec es b0 = Some b \<Longrightarrow> pc b0 \<le> k \<Longrightarrow> k < pc b \<Longrightarrow>
   \<exists>es1 es2 b1. es = es1 @ Coordinator # es2 \<and> exec es1 b0 = Some b1 \<and> pc b1 = k
      \<and> exec (Coordinator # es2) b1 = Some b"
proof (induction es arbitrary: b0)
  case Nil
  then show ?case by simp
next
  case (Cons e es)
  from Cons.prems(1) obtain b' where st: "step e b0 = Some b'" and ex: "exec es b' = Some b"
    by (auto split: option.splits)
  show ?case
  proof (cases "e = Coordinator \<and> pc b0 = k")
    case True
    then have "e # es = [] @ Coordinator # es \<and> exec [] b0 = Some b0 \<and> pc b0 = k
        \<and> exec (Coordinator # es) b0 = Some b"
      using Cons.prems(1) by simp
    then show ?thesis by blast
  next
    case False
    have "pc b' \<le> k"
    proof (cases "e = Coordinator")
      case True
      with st have "pc b' = Suc (pc b0)" by (simp add: start_pc)
      with False True Cons.prems(2) show ?thesis by simp
    next
      case False
      with st have "pc b' = pc b0" by (rule step_pc)
      with Cons.prems(2) show ?thesis by simp
    qed
    from Cons.IH[OF ex this Cons.prems(3)]
    obtain es1 es2 b1 where "es = es1 @ Coordinator # es2" "exec es1 b' = Some b1" "pc b1 = k"
      "exec (Coordinator # es2) b1 = Some b" by blast
    then have "e # es = (e # es1) @ Coordinator # es2 \<and> exec (e # es1) b0 = Some b1 \<and> pc b1 = k
      \<and> exec (Coordinator # es2) b1 = Some b"
      using st by simp
    then show ?thesis by blast
  qed
qed

lemma pc_cases:
  assumes "k < (19::nat)"
  obtains "k = 0" | "k = 1" | "k = 2" | "k = 3" | "k = 4" | "k = 5" | "k = 6" | "k = 7"
    | "k = 8" | "k = 9" | "k = 10" | "k = 11" | "k = 12" | "k = 13" | "k = 14" | "k = 15"
    | "k = 16" | "k = 17" | "k = 18"
proof -
  from assms have "k = 18 \<or> k = 17 \<or> k = 16 \<or> k = 15 \<or> k = 14 \<or> k = 13 \<or> k = 12 \<or> k = 11
    \<or> k = 10 \<or> k = 9 \<or> k = 8 \<or> k = 7 \<or> k = 6 \<or> k = 5 \<or> k = 4 \<or> k = 3 \<or> k = 2 \<or> k = 1
    \<or> k = 0"
    by arith
  with that show ?thesis by blast
qed

lemma length_start_body: "length start_body = 19"
  by (simp add: start_body_def)

lemma at_select: "n < 19 \<Longrightarrow> (start_body ! n = Select_Done_dataFinished) = (n = 9)"
  by (erule pc_cases) (simp_all add: start_body_def)

lemma at_workerWait: "n < 19 \<Longrightarrow> (start_body ! n = Wait_workerWait) = (n = 11)"
  by (erule pc_cases) (simp_all add: start_body_def)

lemma at_close: "n < 19 \<Longrightarrow> (start_body ! n = Close_workersFinished) = (n = 13)"
  by (erule pc_cases) (simp_all add: start_body_def)

lemma at_mainWait: "n < 19 \<Longrightarrow> (start_body ! n = Wait_mainWait) = (n = 15)"
  by (erule pc_cases) (simp_all add: start_body_def)

lemma at_summary: "n < 19 \<Longrightarrow> (start_body ! n = Summary) = (n = 17)"
  by (erule pc_cases) (simp_all add: start_body_def)

lemma at_return: "n < 19 \<Longrightarrow> (start_body ! n = Return_nil) = (n = 18)"
  by (erule pc_cases) (simp_all add: start_body_def)

lemma startE:
  assumes "start b = Some b'"
  obtains b1 where "in_start b" "returned b = None" "pc b < 19"
    "exec_stmt (start_body ! pc b) b = Some b1" "b' = b1\<lparr>pc := Suc (pc b)\<rparr>"
  using assms by (auto simp: start_def length_start_body split: if_splits)

lemma exec_invariant:
  assumes "exec es b0 = Some b" and "P b0"
    and "\<And>e b b'. P b \<Longrightarrow> step e b = Some b' \<Longrightarrow> P b'"
  shows "P b"
  using assms(1,2)
proof (induction es arbitrary: b0)
  case Nil
  then show ?case by simp
next
  case (Cons e es)
  then show ?case by (auto split: option.splits intro: assms(3))
qed

lemma ctl_inv_New: "ctl_inv New"
  by (simp add: ctl_inv_def New_def)

lemma exec_stmt_frame:
  "exec_stmt s b = Some b' \<Longrightarrow> in_start b' = in_start b \<and> pc b' = pc b
     \<and> (deferred b' = deferred b \<or> deferred b' = [])
     \<and> (returned b' = returned b \<and> s \<noteq> Return_nil \<or> s = Return_nil \<and> returned b' = Some None)"
  by (cases s) (auto simp: simple_defs split: if_splits)

lemma ctl_inv_start: "ctl_inv b \<Longrightarrow> start b = Some b' \<Longrightarrow> ctl_inv b'"
proof (erule startE)
  fix b1
  assume inv: "ctl_inv b" and a: "in_start b" "returned b = None" "pc b < 19"
    and ex: "exec_stmt (start_body ! pc b) b = Some b1" and b': "b' = b1\<lparr>pc := Suc (pc b)\<rparr>"
  note fr = exec_stmt_frame[OF ex]
  have r: "start_body ! pc b = Return_nil \<longleftrightarrow> pc b = 18" using a(3) by (rule at_return)
  have d: "set (deferred b1) \<subseteq> {closeDataFile, flushAndCloseLog}"
    using fr inv by (auto simp: ctl_inv_def)
  show "ctl_inv b'"
    unfolding ctl_inv_def b' using fr a r d by auto
qed

lemma Start_frame:
  "\<not> in_start b \<Longrightarrow> returned b = None \<Longrightarrow> deferred b = [] \<Longrightarrow>
   pc (Start ev b) = pc b \<and>
   (in_start (Start ev b) \<and> returned (Start ev b) = None
      \<and> deferred (Start ev b) = [flushAndCloseLog, closeDataFile]
    \<or> \<not> in_start (Start ev b) \<and> returned (Start ev b) \<noteq> None \<and> deferred (Start ev b) = [])"
  by (simp add: Start_def Let_def simple_defs split: option.splits sum.splits)

lemma ctl_inv_Start:
  assumes "ctl_inv b" "\<not> in_start b" "returned b = None"
  shows "ctl_inv (Start ev b)"
proof -
  from assms have d: "deferred b = []" and p: "pc b = 0" by (auto simp: ctl_inv_def)
  note fr = Start_frame[OF assms(2,3) d, of ev]
  show ?thesis unfolding ctl_inv_def using fr p by auto
qed

lemma step_other_frame:
  "step e b = Some b' \<Longrightarrow> e \<noteq> Coordinator \<Longrightarrow> (\<forall>ev. e \<noteq> CallStart ev) \<Longrightarrow>
   pc b' = pc b \<and> in_start b' = in_start b \<and> returned b' = returned b
   \<and> effects b' = effects b \<and> deferred b' = deferred b"
  by (cases e) (auto simp: simple_defs Let_def split: if_splits option.splits)

lemma ctl_inv_step: "ctl_inv b \<Longrightarrow> step e b = Some b' \<Longrightarrow> ctl_inv b'"
proof -
  assume inv: "ctl_inv b" and st: "step e b = Some b'"
  consider (start) "e = Coordinator" | (Start) ev where "e = CallStart ev"
    | (other) "e \<noteq> Coordinator" "\<forall>ev. e \<noteq> CallStart ev" by blast
  then show ?thesis
  proof cases
    case start
    with inv st show ?thesis by (auto intro: ctl_inv_start)
  next
    case Start
    with inv st show ?thesis by (auto intro: ctl_inv_Start split: if_splits)
  next
    case other
    from step_other_frame[OF st other] inv show ?thesis by (simp add: ctl_inv_def)
  qed
qed

lemma reachable_ctl: "exec es New = Some b \<Longrightarrow> ctl_inv b"
  by (erule exec_invariant[where P = ctl_inv]) (auto intro: ctl_inv_New ctl_inv_step)

subsection \<open>The statements a run executes\<close>

lemma trace_append:
  "exec es1 b0 = Some b1 \<Longrightarrow>
   coordinator_trace (es1 @ es2) b0 = coordinator_trace es1 b0 @ coordinator_trace es2 b1"
  by (induction es1 arbitrary: b0) (auto split: option.splits)

lemma step_pc_mono: "step e b = Some b' \<Longrightarrow> pc b \<le> pc b'"
  by (cases "e = Coordinator") (auto simp: start_pc step_pc)

lemma exec_pc_mono: "exec es b0 = Some b \<Longrightarrow> pc b0 \<le> pc b"
proof (induction es arbitrary: b0)
  case Nil
  then show ?case by simp
next
  case (Cons e es)
  then obtain b' where "step e b0 = Some b'" "exec es b' = Some b"
    by (auto split: option.splits)
  with Cons.IH[of b'] step_pc_mono[of e b0 b'] show ?case by simp
qed

lemma trace_stmts:
  "exec es b0 = Some b \<Longrightarrow>
   map fst (coordinator_trace es b0) = drop (pc b0) (take (pc b) start_body)"
proof (induction es arbitrary: b0)
  case Nil
  then show ?case by simp
next
  case (Cons e es)
  then obtain b' where st: "step e b0 = Some b'" and ex: "exec es b' = Some b"
    by (auto split: option.splits)
  note ih = Cons.IH[OF ex]
  show ?case
  proof (cases "e = Coordinator")
    case True
    with st have s: "start b0 = Some b'" by simp
    then have p: "pc b' = Suc (pc b0)" by (rule start_pc)
    from s have lt: "pc b0 < length start_body" by (auto simp: start_def split: if_splits)
    from exec_pc_mono[OF ex] p have "pc b0 < pc b" by simp
    with lt have "pc b0 < length (take (pc b) start_body)" by simp
    then have "drop (pc b0) (take (pc b) start_body)
        = take (pc b) start_body ! pc b0 # drop (Suc (pc b0)) (take (pc b) start_body)"
      by (rule Cons_nth_drop_Suc[symmetric])
    with \<open>pc b0 < pc b\<close> ih p st True show ?thesis by simp
  next
    case False
    with st have "pc b' = pc b0" by (auto dest: step_pc)
    with ih st False show ?thesis by simp
  qed
qed

lemma trace_entry:
  "(s, b1) \<in> set (coordinator_trace es b0) \<Longrightarrow>
   \<exists>es1 b2. exec es1 b0 = Some b1 \<and> start b1 = Some b2 \<and> s = start_body ! pc b1"
proof (induction es arbitrary: b0)
  case Nil
  then show ?case by simp
next
  case (Cons e es)
  from Cons.prems obtain b' where st: "step e b0 = Some b'"
    by (cases "step e b0") auto
  from Cons.prems st consider (here) "e = Coordinator" "s = start_body ! pc b0" "b1 = b0"
    | (later) "(s, b1) \<in> set (coordinator_trace es b')"
    by (auto split: if_splits)
  then show ?case
  proof cases
    case here
    with st have "exec [] b0 = Some b1 \<and> start b1 = Some b' \<and> s = start_body ! pc b1" by simp
    then show ?thesis by blast
  next
    case later
    from Cons.IH[OF later] obtain es1 b2 where
      "exec es1 b' = Some b1" "start b1 = Some b2" "s = start_body ! pc b1" by blast
    with st have "exec (e # es1) b0 = Some b1 \<and> start b1 = Some b2 \<and> s = start_body ! pc b1"
      by simp
    then show ?thesis by blast
  qed
qed

lemma distinct_start_body: "distinct start_body"
  by (simp add: start_body_def)

lemma executed_iff:
  assumes "exec es New = Some b" "k < 19"
  shows "executed (start_body ! k) es \<longleftrightarrow> k < pc b"
proof -
  from trace_stmts[OF assms(1)]
  have t: "map fst (coordinator_trace es New) = take (pc b) start_body"
    by (simp add: New_def)
  have "fst ` set (coordinator_trace es New) = set (map fst (coordinator_trace es New))"
    by simp
  with t have "executed (start_body ! k) es \<longleftrightarrow> start_body ! k \<in> set (take (pc b) start_body)"
    unfolding executed_def by simp
  also have "\<dots> \<longleftrightarrow> k < pc b"
  proof
    assume "start_body ! k \<in> set (take (pc b) start_body)"
    then obtain j where j: "j < length (take (pc b) start_body)"
      "take (pc b) start_body ! j = start_body ! k"
      by (auto simp: in_set_conv_nth)
    then have e: "start_body ! j = start_body ! k" and l: "j < 19" "j < pc b"
      by (simp_all add: length_start_body)
    from distinct_start_body l(1) assms(2) e have "j = k"
      by (simp add: nth_eq_iff_index_eq length_start_body)
    with l(2) show "k < pc b" by simp
  next
    assume p: "k < pc b"
    with assms(2) have "k < length (take (pc b) start_body)"
      by (simp add: length_start_body)
    then have "take (pc b) start_body ! k \<in> set (take (pc b) start_body)" by (rule nth_mem)
    with p show "start_body ! k \<in> set (take (pc b) start_body)" by simp
  qed
  finally show ?thesis .
qed

lemma start_guard:
  assumes "start b = Some b'"
  shows "(start_body ! pc b = Select_Done_dataFinished \<longrightarrow>
            ctx_done b \<or> recv_ready (dataFinishedChannel b))
       \<and> (start_body ! pc b = Wait_workerWait \<longrightarrow> workerWait b = 0)
       \<and> (start_body ! pc b = Close_workersFinished \<longrightarrow> \<not> closed (workersFinishedChannel b))
       \<and> (start_body ! pc b = Wait_mainWait \<longrightarrow> mainWait b = 0)"
  using assms by (auto elim!: startE split: if_splits)

subsection \<open>What \<open>Start\<close> and \<open>start\<close> leave alone\<close>

lemma exec_stmt_keeps:
  "exec_stmt s b = Some b' \<Longrightarrow>
   err b' = err b \<and> errorsIgnored b' = errorsIgnored b \<and> ctx_done b' = ctx_done b
   \<and> notify b' = notify b \<and> signal_goroutine b' = signal_goroutine b
   \<and> signalChannel b' = signalChannel b \<and> changeRateChannel b' = changeRateChannel b
   \<and> workerTypes b' = workerTypes b \<and> mainWait b' = mainWait b \<and> workerWait b' = workerWait b
   \<and> dataFinishedChannel b' = dataFinishedChannel b
   \<and> closed (workersFinishedChannel b')
        = (closed (workersFinishedChannel b) \<or> s = Close_workersFinished)"
  by (cases s) (auto simp: simple_defs split: if_splits)

lemma start_keeps:
  assumes "start b = Some b'"
  shows "err b' = err b \<and> errorsIgnored b' = errorsIgnored b \<and> ctx_done b' = ctx_done b
   \<and> notify b' = notify b \<and> signal_goroutine b' = signal_goroutine b
   \<and> signalChannel b' = signalChannel b \<and> changeRateChannel b' = changeRateChannel b
   \<and> workerTypes b' = workerTypes b \<and> mainWait b' = mainWait b \<and> workerWait b' = workerWait b
   \<and> dataFinishedChannel b' = dataFinishedChannel b
   \<and> closed (workersFinishedChannel b') = (closed (workersFinishedChannel b) \<or> pc b = 13)"
proof -
  from assms obtain b1 where a: "pc b < 19" "exec_stmt (start_body ! pc b) b = Some b1"
    "b' = b1\<lparr>pc := Suc (pc b)\<rparr>" by (rule startE)
  from exec_stmt_keeps[OF a(2)] at_close[OF a(1)] a(3) show ?thesis by simp
qed

lemma Start_keeps:
  "err (Start ev b) = err b \<and> errorsIgnored (Start ev b) = errorsIgnored b
   \<and> ctx_done (Start ev b) = ctx_done b
   \<and> notify (Start ev b) = notify b \<and> signal_goroutine (Start ev b) = signal_goroutine b
   \<and> signalChannel (Start ev b) = signalChannel b
   \<and> changeRateChannel (Start ev b) = changeRateChannel b
   \<and> workerTypes (Start ev b) = workerTypes b \<and> mainWait (Start ev b) = mainWait b
   \<and> workerWait (Start ev b) = workerWait b
   \<and> dataFinishedChannel (Start ev b) = dataFinishedChannel b
   \<and> workersFinishedChannel (Start ev b) = workersFinishedChannel b"
  by (simp add: Start_def Let_def simple_defs split: option.splits sum.splits)

lemma wf_inv_step: "wf_inv b \<Longrightarrow> step e b = Some b' \<Longrightarrow> wf_inv b'"
proof (cases e)
  case (CallStart ev)
  assume "wf_inv b" "step e b = Some b'"
  with CallStart show ?thesis
    by (auto simp: wf_inv_def Start_keeps Start_pc split: if_splits)
next
  case Coordinator
  assume "wf_inv b" "step e b = Some b'"
  with Coordinator have "start b = Some b'" "wf_inv b" by simp_all
  with start_keeps[of b b'] start_pc[of b b'] show ?thesis by (auto simp: wf_inv_def)
qed (auto simp: wf_inv_def simple_defs Let_def split: if_splits option.splits)

lemma reachable_wf:
  assumes "exec es New = Some b"
  shows "wf_inv b"
proof (rule exec_invariant[where P = wf_inv, OF assms])
  show "wf_inv New" by (simp add: wf_inv_def New_def make_chan_def)
qed (rule wf_inv_step)

lemma err_inv_step: "err_inv b \<Longrightarrow> step e b = Some b' \<Longrightarrow> err_inv b'"
proof (cases e)
  case (CallStart ev)
  assume "err_inv b" "step e b = Some b'"
  with CallStart show ?thesis
    by (auto simp: err_inv_def Start_keeps split: if_splits)
next
  case Coordinator
  assume "err_inv b" "step e b = Some b'"
  with Coordinator have "start b = Some b'" "err_inv b" by simp_all
  with start_keeps[of b b'] show ?thesis by (auto simp: err_inv_def)
qed (auto simp: err_inv_def simple_defs Let_def split: if_splits option.splits)

lemma reachable_err:
  assumes "exec es New = Some b"
  shows "err_inv b"
proof (rule exec_invariant[where P = err_inv, OF assms])
  show "err_inv New" by (simp add: err_inv_def New_def)
qed (rule err_inv_step)

lemma sig_inv_step: "sig_inv b \<Longrightarrow> step e b = Some b' \<Longrightarrow> sig_inv b'"
proof (cases e)
  case (CallStart ev)
  assume "sig_inv b" "step e b = Some b'"
  with CallStart show ?thesis
    by (auto simp: sig_inv_def Start_keeps split: if_splits)
next
  case Coordinator
  assume "sig_inv b" "step e b = Some b'"
  with Coordinator have "start b = Some b'" "sig_inv b" by simp_all
  with start_keeps[of b b'] show ?thesis by (auto simp: sig_inv_def)
qed (auto simp: sig_inv_def simple_defs Let_def split: if_splits option.splits)

lemma reachable_sig:
  assumes "exec es New = Some b"
  shows "sig_inv b"
proof (rule exec_invariant[where P = sig_inv, OF assms])
  show "sig_inv New" by (simp add: sig_inv_def New_def make_chan_def)
qed (rule sig_inv_step)

lemma ctx_done_step: "ctx_done b \<Longrightarrow> step e b = Some b' \<Longrightarrow> ctx_done b'"
proof (cases e)
  case (CallStart ev)
  assume "ctx_done b" "step e b = Some b'"
  with CallStart show ?thesis
    by (auto simp: Start_keeps split: if_splits)
next
  case Coordinator
  assume "ctx_done b" "step e b = Some b'"
  with Coordinator have "start b = Some b'" "ctx_done b" by simp_all
  with start_keeps[of b b'] show ?thesis by auto
qed (auto simp: simple_defs Let_def split: if_splits option.splits)

lemma ctx_done_exec: "exec es b = Some b' \<Longrightarrow> ctx_done b \<Longrightarrow> ctx_done b'"
  by (erule exec_invariant[where P = ctx_done]) (auto intro: ctx_done_step)

lemma rate_inv_step: "rate_inv b \<Longrightarrow> step e b = Some b' \<Longrightarrow> rate_inv b'"
proof (cases e)
  case (CallStart ev)
  assume "rate_inv b" "step e b = Some b'"
  with CallStart show ?thesis
    by (auto simp: rate_inv_def Start_keeps split: if_splits)
next
  case Coordinator
  assume "rate_inv b" "step e b = Some b'"
  with Coordinator have "start b = Some b'" "rate_inv b" by simp_all
  with start_keeps[of b b'] show ?thesis by (auto simp: rate_inv_def)
qed (auto simp: rate_inv_def simple_defs Let_def split: if_splits option.splits)

lemma reachable_rate:
  assumes "exec es New = Some b"
  shows "rate_inv b"
proof (rule exec_invariant[where P = rate_inv, OF assms])
  show "rate_inv New" by (simp add: rate_inv_def New_def make_chan_def)
qed (rule rate_inv_step)

subsection \<open>Effects\<close>

lemma summary_count: "length (filter is_summary (summary e n)) = 1"
  by (cases e) (simp_all add: summary_def fatal_fmt_def ignored_fmt_def)

lemma deferred_not_summary:
  "set ds \<subseteq> {closeDataFile, flushAndCloseLog} \<Longrightarrow> filter is_summary (map Call ds) = []"
  by (induction ds) auto

lemma stmt_effects:
  assumes "n < 19" and "exec_stmt (start_body ! n) b = Some b1"
    and "set (deferred b) \<subseteq> {closeDataFile, flushAndCloseLog}"
  shows "\<exists>xs. effects b1 = effects b @ xs
           \<and> length (filter is_summary xs) = (if n = 17 then 1 else 0)"
  using assms(2) deferred_not_summary[OF assms(3)]
  by (cases rule: pc_cases[OF assms(1)])
     (auto simp: start_body_def simple_defs summary_count split: if_splits)

lemma start_effects:
  assumes "start b = Some b'" and "set (deferred b) \<subseteq> {closeDataFile, flushAndCloseLog}"
  shows "\<exists>xs. effects b' = effects b @ xs
           \<and> length (filter is_summary xs) = (if pc b = 17 then 1 else 0)"
proof -
  from assms(1) obtain b1 where a: "pc b < 19" "exec_stmt (start_body ! pc b) b = Some b1"
    "b' = b1\<lparr>pc := Suc (pc b)\<rparr>" by (rule startE)
  from stmt_effects[OF a(1,2) assms(2)] a(3) show ?thesis by simp
qed

lemma Start_effects:
  assumes "effects b = []" "deferred b = []"
  shows "effects (Start ev b) =
     (case loadConfigViper_err ev of
        Some e \<Rightarrow> [Call loadConfigViper]
      | None \<Rightarrow>
         if loaded_Data ev = [] then [Call loadConfigViper]
         else (case openDataFile_res ev of
                 Inl e \<Rightarrow> [Call loadConfigViper, Call openDataFile]
               | Inr h \<Rightarrow>
                  (case openLogAndInit_err ev of
                     Some e \<Rightarrow> [Call loadConfigViper, Call openDataFile, Call openLogAndInit,
                                Call closeDataFile]
                   | None \<Rightarrow> [Call loadConfigViper, Call openDataFile, Call openLogAndInit])))"
  using assms by (simp add: Start_def Let_def simple_defs split: option.splits sum.splits)

lemma Start_result:
  "returned b = None \<Longrightarrow> \<not> in_start b \<Longrightarrow>
   (returned (Start ev b), in_start (Start ev b)) =
     (case loadConfigViper_err ev of
        Some e \<Rightarrow> (Some (Some e), False)
      | None \<Rightarrow>
         if loaded_Data ev = [] then (Some (Some no_data_file), False)
         else (case openDataFile_res ev of
                 Inl e \<Rightarrow> (Some (Some e), False)
               | Inr h \<Rightarrow>
                  (case openLogAndInit_err ev of
                     Some e \<Rightarrow> (Some (Some e), False)
                   | None \<Rightarrow> (None, True))))"
  by (simp add: Start_def Let_def simple_defs split: option.splits sum.splits)

lemma step_effects:
  assumes "ctl_inv b" "step e b = Some b'"
  shows "\<exists>xs. effects b' = effects b @ xs
          \<and> length (filter is_summary xs) = (if e = Coordinator \<and> pc b = 17 then 1 else 0)"
proof -
  consider (start) "e = Coordinator" | (Start) ev where "e = CallStart ev"
    | (other) "e \<noteq> Coordinator" "\<forall>ev. e \<noteq> CallStart ev" by blast
  then show ?thesis
  proof cases
    case start
    with assms start_effects[of b b'] show ?thesis by (simp add: ctl_inv_def)
  next
    case (Start ev)
    with assms have f: "effects b = []" "deferred b = []" and b': "b' = Start ev b"
      by (auto simp: ctl_inv_def split: if_splits)
    have "filter is_summary (effects (Start ev b)) = []"
      unfolding Start_effects[OF f] by (simp split: option.splits sum.splits)
    with f b' Start show ?thesis by simp
  next
    case other
    from step_other_frame[OF assms(2) other] other show ?thesis by simp
  qed
qed

lemma exec_effects:
  "exec es b0 = Some b \<Longrightarrow> ctl_inv b0 \<Longrightarrow> \<exists>xs. effects b = effects b0 @ xs"
proof (induction es arbitrary: b0)
  case Nil
  then show ?case by simp
next
  case (Cons e es)
  then obtain b' where st: "step e b0 = Some b'" and ex: "exec es b' = Some b"
    by (auto split: option.splits)
  from Cons.prems(2) st have "ctl_inv b'" by (rule ctl_inv_step)
  from Cons.IH[OF ex this] step_effects[OF Cons.prems(2) st] show ?case by auto
qed

lemma sum_inv_step:
  assumes "sum_inv b" "step e b = Some b'"
  shows "sum_inv b'"
proof -
  from assms have c: "ctl_inv b" "ctl_inv b'" by (auto simp: sum_inv_def intro: ctl_inv_step)
  from step_effects[OF c(1) assms(2)] obtain xs where
    xs: "effects b' = effects b @ xs"
      "length (filter is_summary xs) = (if e = Coordinator \<and> pc b = 17 then 1 else 0)" by blast
  have "pc b' = (if e = Coordinator then Suc (pc b) else pc b)"
    using assms(2) start_pc[of b b'] step_pc[of e b b'] by auto
  with xs assms(1) c(2) show ?thesis by (auto simp: sum_inv_def)
qed

lemma reachable_sum:
  assumes "exec es New = Some b"
  shows "sum_inv b"
proof (rule exec_invariant[where P = sum_inv, OF assms])
  show "sum_inv New" by (simp add: sum_inv_def ctl_inv_New) (simp add: New_def)
qed (rule sum_inv_step)

lemma err_stable_step: "err b = Some x \<Longrightarrow> step e b = Some b' \<Longrightarrow> err b' = Some x"
proof (cases e)
  case (CallStart ev)
  assume "err b = Some x" "step e b = Some b'"
  with CallStart show ?thesis
    by (auto simp: Start_keeps split: if_splits)
next
  case Coordinator
  assume "err b = Some x" "step e b = Some b'"
  with Coordinator have "start b = Some b'" "err b = Some x" by simp_all
  with start_keeps[of b b'] show ?thesis by auto
qed (auto simp: simple_defs Let_def split: if_splits option.splits)

lemma err_stable: "exec es b = Some b' \<Longrightarrow> err b = Some x \<Longrightarrow> err b' = Some x"
  by (erule exec_invariant[where P = "\<lambda>b. err b = Some x"]) (auto intro: err_stable_step)

lemma failed_start_stays:
  "exec es b = Some b' \<Longrightarrow> \<not> in_start b \<Longrightarrow> returned b \<noteq> None \<Longrightarrow>
   \<not> in_start b' \<and> returned b' = returned b \<and> effects b' = effects b
   \<and> coordinator_trace es b = []"
proof (induction es arbitrary: b)
  case Nil
  then show ?case by simp
next
  case (Cons e es)
  then obtain b1 where st: "step e b = Some b1" and ex: "exec es b1 = Some b'"
    by (auto split: option.splits)
  from st Cons.prems(2,3) have o: "e \<noteq> Coordinator" "\<forall>ev. e \<noteq> CallStart ev"
    by (auto simp: start_def)
  note fr = step_other_frame[OF st o]
  with Cons.IH[OF ex] Cons.prems(2,3) st o show ?case by simp
qed

lemmas run_defs = New_def Start_def start_def start_body_def simple_defs Let_def summary_def
  env_ok_def

subsection \<open>The calls of \<open>Start\<close> come first\<close>

lemma start_in_start: "start b = Some b' \<Longrightarrow> in_start b \<and> in_start b'"
  by (erule startE) (auto dest: exec_stmt_frame)

lemma pre_inv_step:
  assumes "pre_inv b" "step e b = Some b'"
  shows "pre_inv b'"
proof -
  from assms have c: "ctl_inv b" "ctl_inv b'" by (auto simp: pre_inv_def intro: ctl_inv_step)
  consider (start) "e = Coordinator" | (Start) ev where "e = CallStart ev"
    | (other) "e \<noteq> Coordinator" "\<forall>ev. e \<noteq> CallStart ev" by blast
  then show ?thesis
  proof cases
    case start
    with assms(2) have "in_start b" by (auto dest: start_in_start)
    with assms(1) step_effects[OF c(1) assms(2)] c(2) show ?thesis
      by (auto simp: pre_inv_def)
  next
    case (Start ev)
    with assms(2) c(1) have f: "effects b = []" "deferred b = []" "returned b = None" "\<not> in_start b"
      and b': "b' = Start ev b"
      by (auto simp: ctl_inv_def split: if_splits)
    from Start_result[OF f(3,4), of ev] Start_effects[OF f(1,2), of ev]
    have "in_start (Start ev b) \<longrightarrow> effects (Start ev b) = prelude"
      by (auto simp: prelude_def split: option.splits sum.splits if_splits)
    with b' c(2) show ?thesis by (simp add: pre_inv_def)
  next
    case other
    from step_other_frame[OF assms(2) other] assms(1) c(2) show ?thesis
      by (simp add: pre_inv_def)
  qed
qed

lemma reachable_pre:
  assumes "exec es New = Some b"
  shows "pre_inv b"
proof (rule exec_invariant[where P = pre_inv, OF assms])
  show "pre_inv New" by (simp add: pre_inv_def ctl_inv_New) (simp add: New_def)
qed (rule pre_inv_step)

lemma exec_to:
  "exec es0 b0 = Some b \<Longrightarrow> exec es1 b = Some b1 \<Longrightarrow> exec (es0 @ es1) b0 = Some b1"
  by (simp add: exec_append)

lemma trace_entry_facts:
  assumes r: "exec es0 New = Some b0" and m: "(s, b1) \<in> set (coordinator_trace es b0)"
  shows "in_start b1 \<and> pc b1 < 19 \<and> s = start_body ! pc b1
     \<and> (s = Select_Done_dataFinished \<longrightarrow> ctx_done b1 \<or> recv_ready (dataFinishedChannel b1))
     \<and> (s = Wait_workerWait \<longrightarrow> workerWait b1 = 0)
     \<and> (s = Close_workersFinished \<longrightarrow> \<not> closed (workersFinishedChannel b1))
     \<and> (s = Wait_mainWait \<longrightarrow> mainWait b1 = 0 \<and> closed (workersFinishedChannel b1))
     \<and> (s = Summary \<longrightarrow>
          closed (workersFinishedChannel b1) \<and> filter is_summary (effects b1) = [])
     \<and> (\<exists>xs. effects b1 = prelude @ xs)"
proof -
  from trace_entry[OF m] obtain es1 b2 where
    e: "exec es1 b0 = Some b1" "start b1 = Some b2" "s = start_body ! pc b1" by blast
  from exec_to[OF r e(1)] have re: "exec (es0 @ es1) New = Some b1" .
  from e(2) have st: "in_start b1" "pc b1 < 19" by (auto elim: startE)
  note g = start_guard[OF e(2)]
  from reachable_wf[OF re] have wf: "closed (workersFinishedChannel b1) = (13 < pc b1)"
    by (simp add: wf_inv_def)
  from reachable_sum[OF re] have su: "pc b1 \<le> 17 \<longrightarrow> filter is_summary (effects b1) = []"
    by (auto simp: sum_inv_def)
  from reachable_pre[OF re] st have pr: "\<exists>xs. effects b1 = prelude @ xs"
    by (simp add: pre_inv_def)
  show ?thesis
    using st e(3) g wf su pr at_mainWait[OF st(2)] at_summary[OF st(2)] by auto
qed

lemma trace_member:
  assumes "exec es1 b0 = Some b1" "start b1 = Some b2"
  shows "(start_body ! pc b1, b1) \<in> set (coordinator_trace (es1 @ Coordinator # es2) b0)"
  using assms by (simp add: trace_append)

lemma summary_step:
  assumes "exec es New = Some b" and "17 < pc b"
  shows "\<exists>b1 post. (Summary, b1) \<in> set (coordinator_trace es New)
      \<and> effects b = effects b1 @ summary (err b1) (errorsIgnored b1) @ post
      \<and> filter is_summary (effects b1) = [] \<and> filter is_summary post = []
      \<and> (\<forall>x. err b1 = Some x \<longrightarrow> err b = Some x)"
proof -
  have "pc (New :: 'a Blaster) \<le> 17" by (simp add: New_def)
  from crossing[OF assms(1) this assms(2)] obtain es1 es2 b1 where
    s: "es = es1 @ Coordinator # es2" "exec es1 New = Some b1" "pc b1 = 17"
       "exec (Coordinator # es2) b1 = Some b" by blast
  from s(4) obtain b2 where b2: "start b1 = Some b2" "exec es2 b2 = Some b"
    by (auto split: option.splits)
  from b2(1) s(3) have e2: "effects b2 = effects b1 @ summary (err b1) (errorsIgnored b1)"
    by (auto elim!: startE simp: start_body_def)
  have r2: "exec (es1 @ [Coordinator]) New = Some b2" using s(2) b2(1) by (simp add: exec_append)
  from reachable_ctl[OF r2] exec_effects[OF b2(2)] obtain post where
    post: "effects b = effects b2 @ post" by blast
  from reachable_sum[OF s(2)] s(3) have c1: "filter is_summary (effects b1) = []"
    by (simp add: sum_inv_def)
  from reachable_sum[OF assms(1)] assms(2) have "length (filter is_summary (effects b)) = 1"
    by (simp add: sum_inv_def)
  with post e2 c1 have c2: "filter is_summary post = []"
    by (simp add: summary_count)
  from trace_member[OF s(2) b2(1), of es2] s(1,3)
  have m: "(Summary, b1) \<in> set (coordinator_trace es New)" by (simp add: start_body_def)
  have st: "\<forall>x. err b1 = Some x \<longrightarrow> err b = Some x"
    using err_stable[OF s(4)] by blast
  from m post e2 c1 c2 st show ?thesis by auto
qed

subsection \<open>One statement of \<open>start\<close> at a time\<close>

lemma start_unfold:
  assumes "ctl_inv b" "in_start b" "returned b = None"
  shows "pc b < 19
    \<and> start b = map_option (\<lambda>b'. b'\<lparr>pc := Suc (pc b)\<rparr>) (exec_stmt (start_body ! pc b) b)"
  using assms by (auto simp: ctl_inv_def start_def length_start_body split: if_splits)

subsection \<open>Running to the return\<close>

lemma start_enabled:
  assumes "in_start b" "returned b = None" "pc b < 19" "workerWait b = 0" "mainWait b = 0"
    "ctx_done b" "wf_inv b"
  shows "\<exists>b1. start b = Some b1"
  using assms(1,2,4-7)
  by (cases rule: pc_cases[OF assms(3)])
     (simp_all add: start_def start_body_def wf_inv_def)

lemma run_to_return:
  "in_start b \<Longrightarrow> ctl_inv b \<Longrightarrow> wf_inv b \<Longrightarrow> workerWait b = 0 \<Longrightarrow> mainWait b = 0 \<Longrightarrow>
   ctx_done b \<Longrightarrow> pc b + n = 19 \<Longrightarrow>
   \<exists>b'. exec (replicate n Coordinator) b = Some b' \<and> returned b' = Some None"
proof (induction n arbitrary: b)
  case 0
  then show ?case by (simp add: ctl_inv_def)
next
  case (Suc n)
  from Suc.prems have p: "pc b < 19" and r: "returned b = None" by (auto simp: ctl_inv_def)
  from start_enabled[OF Suc.prems(1) r p Suc.prems(4,5,6,3)] obtain b1 where
    s: "start b = Some b1" by blast
  then have st: "step Coordinator b = Some b1" by simp
  note k = start_keeps[OF s]
  have "\<exists>b'. exec (replicate n Coordinator) b1 = Some b' \<and> returned b' = Some None"
  proof (rule Suc.IH)
    show "in_start b1" using s by (auto dest: start_in_start)
    show "ctl_inv b1" using Suc.prems(2) s by (rule ctl_inv_start)
    show "wf_inv b1" using Suc.prems(3) st by (rule wf_inv_step)
    show "workerWait b1 = 0" "mainWait b1 = 0" "ctx_done b1" using k Suc.prems by simp_all
    show "pc b1 + n = 19" using start_pc[OF s] Suc.prems(7) by simp
  qed
  with st show ?case by simp
qed

lemma workers_done:
  "workerWait b = n \<Longrightarrow> exec (replicate n WorkerDone) b = Some (b\<lparr>workerWait := 0\<rparr>)"
proof (induction n arbitrary: b)
  case 0
  then have "b\<lparr>workerWait := 0\<rparr> = b" by (cases b) simp
  then show ?case by simp
next
  case (Suc n)
  then show ?case by simp
qed

lemma main_done:
  "mainWait b = n \<Longrightarrow> exec (replicate n MainDone) b = Some (b\<lparr>mainWait := 0\<rparr>)"
proof (induction n arbitrary: b)
  case 0
  then have "b\<lparr>mainWait := 0\<rparr> = b" by (cases b) simp
  then show ?case by simp
next
  case (Suc n)
  then show ?case by simp
qed

lemma drain_returns:
  assumes "exec es New = Some b" "in_start b" "ctx_done b"
  shows "\<exists>b'. exec (drain b) b = Some b' \<and> returned b' = Some None"
proof -
  let ?b2 = "b\<lparr>workerWait := 0, mainWait := 0\<rparr>"
  have e: "exec (replicate (workerWait b) WorkerDone @ replicate (mainWait b) MainDone) b
      = Some ?b2"
    using workers_done[of b "workerWait b"] main_done[of "b\<lparr>workerWait := 0\<rparr>" "mainWait b"]
    by (simp add: exec_append)
  from reachable_ctl[OF assms(1)] have c: "ctl_inv ?b2" "pc b \<le> 19"
    by (simp_all add: ctl_inv_def)
  from reachable_wf[OF assms(1)] have w: "wf_inv ?b2" by (simp add: wf_inv_def)
  from c(2) have n: "pc ?b2 + (length start_body - pc b) = 19"
    by (simp add: length_start_body)
  have "\<exists>b'. exec (replicate (length start_body - pc b) Coordinator) ?b2 = Some b'
      \<and> returned b' = Some None"
    by (rule run_to_return[OF _ c(1) w _ _ _ n]) (use assms in simp_all)
  then obtain b' where r: "exec (replicate (length start_body - pc b) Coordinator) ?b2 = Some b'"
    "returned b' = Some None" by blast
  from exec_to[OF e r(1)] have "exec (drain b) b = Some b'" by (simp add: drain_def)
  with r(2) show ?thesis by blast
qed

subsection \<open>Interrupts\<close>

lemma pending_step:
  assumes "cancel_pending b" "step e b = Some b'"
  shows "ctx_done b' \<or> cancel_pending b'"
proof (cases e)
  case (CallStart ev)
  with assms show ?thesis by (auto simp: cancel_pending_def Start_keeps split: if_splits)
next
  case Coordinator
  with assms start_keeps[of b b'] show ?thesis by (auto simp: cancel_pending_def)
qed (use assms in \<open>auto simp: cancel_pending_def simple_defs Let_def split: if_splits option.splits\<close>)

lemma interrupt_step:
  assumes "sig_inv b" "notify b"
  shows "\<exists>b'. step Interrupt b = Some b' \<and> (ctx_done b' \<or> cancel_pending b')"
proof (cases "ctx_done b")
  case True
  with assms(2) show ?thesis by (simp add: try_send_def)
next
  case False
  with assms have "signal_goroutine b = Waiting" "cap (signalChannel b) = 1"
    by (auto simp: sig_inv_def intro: goroutine.exhaust)
  with assms(2) show ?thesis by (auto simp: cancel_pending_def try_send_def)
qed

subsection \<open>Components\<close>

lemma no_component_later: "\<forall>s \<in> set (drop 9 start_body). component_of s = None"
  by (simp add: start_body_def)

lemma components_take:
  assumes "8 < n"
  shows "List.map_filter component_of (take n start_body) =
    [RateController, DispatchLoop, ErrorEscalator, WorkerPool, LoggingPipeline, StatusReporter]"
proof -
  have "take n start_body = take 9 (take n start_body) @ drop 9 (take n start_body)"
    by (rule append_take_drop_id[symmetric])
  also from assms have "take 9 (take n start_body) = take 9 start_body" by (simp add: min_def)
  finally have t: "take n start_body = take 9 start_body @ drop 9 (take n start_body)" .
  have "set (drop 9 (take n start_body)) \<subseteq> set (drop 9 start_body)"
    by (simp add: drop_take set_take_subset)
  with no_component_later have "\<forall>s \<in> set (drop 9 (take n start_body)). component_of s = None"
    by blast
  then have "List.map_filter component_of (drop 9 (take n start_body)) = []"
    by (auto simp: map_filter_def filter_empty_conv)
  moreover have "List.map_filter component_of (take 9 start_body) =
    [RateController, DispatchLoop, ErrorEscalator, WorkerPool, LoggingPipeline, StatusReporter]"
    by (simp add: start_body_def map_filter_def)
  ultimately show ?thesis
    by (subst t) (simp add: map_filter_def)
qed

section \<open>The claims\<close>

subsection \<open>Shutdown\<close>

text \<open>
  C1. The shutdown order of \<open>start\<close>. In every run in which \<open>start\<close> has executed
  its summary statement, the statements it executed from the \<open>select\<close> on are, in this
  order: the \<open>select\<close> on cancellation and \<open>dataFinishedChannel\<close>, \<open>workerWait.Wait()\<close>,
  \<open>close(workersFinishedChannel)\<close>, \<open>mainWait.Wait()\<close>, the summary, with one message
  before each of the four last. Each was executed in a state that lets it through: the
  \<open>select\<close> with the context cancelled or the data-finished channel ready; the wait for
  the executors with their wait-group counter at zero; the \<open>close\<close> on a channel not
  closed before; the wait for the consumer loops with \<open>workersFinishedChannel\<close> closed
  and their counter at zero; the summary with nothing of a summary printed before. The
  effects of the run hold one summary.

  And in every state of a run in which \<open>start\<close> is under way, its next statement does
  exactly this. At the \<open>select\<close>, \<open>start\<close> goes on when the context is cancelled, it
  goes on when the data-finished channel is ready, and it does not move when neither is
  the case; going on changes nothing else. At \<open>workerWait.Wait()\<close> and at
  \<open>mainWait.Wait()\<close> it goes on when the counter is zero and does not move otherwise. At
  the \<open>close\<close> it closes \<open>workersFinishedChannel\<close>, and at the summary it appends the
  summary of the state, never blocking at either.
\<close>

theorem shutdown_order:
  assumes "exec es New = Some b"
  shows "(executed Summary es \<longrightarrow>
        drop 9 (take 18 (map fst (coordinator_trace es New))) =
          [Select_Done_dataFinished,
       Println ''Waiting for workers to finish...'',
       Wait_workerWait,
       Println ''All workers finished.'',
       Close_workersFinished,
       Println ''Waiting for processes to finish...'',
       Wait_mainWait,
       Println ''All processes finished.'',
       Summary]
      \<and> (\<forall>(s, b1) \<in> set (coordinator_trace es New).
          (s = Select_Done_dataFinished \<longrightarrow> ctx_done b1 \<or> recv_ready (dataFinishedChannel b1))
        \<and> (s = Wait_workerWait \<longrightarrow> workerWait b1 = 0)
        \<and> (s = Close_workersFinished \<longrightarrow> \<not> closed (workersFinishedChannel b1))
        \<and> (s = Wait_mainWait \<longrightarrow> mainWait b1 = 0 \<and> closed (workersFinishedChannel b1))
        \<and> (s = Summary \<longrightarrow>
             closed (workersFinishedChannel b1) \<and> filter is_summary (effects b1) = []))
      \<and> length (filter is_summary (effects b)) = 1)
   \<and> (in_start b \<and> returned b = None \<longrightarrow>
        (start_body ! pc b = Select_Done_dataFinished \<longrightarrow>
          start b = (if ctx_done b \<or> recv_ready (dataFinishedChannel b)
                     then Some (b\<lparr>pc := Suc (pc b)\<rparr>) else None))
      \<and> (start_body ! pc b = Wait_workerWait \<longrightarrow>
          start b = (if workerWait b = 0 then Some (b\<lparr>pc := Suc (pc b)\<rparr>) else None))
      \<and> (start_body ! pc b = Close_workersFinished \<longrightarrow>
          start b = Some (b\<lparr>workersFinishedChannel := (workersFinishedChannel b)\<lparr>closed := True\<rparr>,
                           pc := Suc (pc b)\<rparr>))
      \<and> (start_body ! pc b = Wait_mainWait \<longrightarrow>
          start b = (if mainWait b = 0 then Some (b\<lparr>pc := Suc (pc b)\<rparr>) else None))
      \<and> (start_body ! pc b = Summary \<longrightarrow>
          start b = Some (b\<lparr>effects := effects b @ summary (err b) (errorsIgnored b),
                           pc := Suc (pc b)\<rparr>)))"
proof -
  have 1: "drop 9 (take 18 (map fst (coordinator_trace es New))) =
          [Select_Done_dataFinished,
       Println ''Waiting for workers to finish...'',
       Wait_workerWait,
       Println ''All workers finished.'',
       Close_workersFinished,
       Println ''Waiting for processes to finish...'',
       Wait_mainWait,
       Println ''All processes finished.'',
       Summary]
      \<and> (\<forall>(s, b1) \<in> set (coordinator_trace es New).
          (s = Select_Done_dataFinished \<longrightarrow> ctx_done b1 \<or> recv_ready (dataFinishedChannel b1))
        \<and> (s = Wait_workerWait \<longrightarrow> workerWait b1 = 0)
        \<and> (s = Close_workersFinished \<longrightarrow> \<not> closed (workersFinishedChannel b1))
        \<and> (s = Wait_mainWait \<longrightarrow> mainWait b1 = 0 \<and> closed (workersFinishedChannel b1))
        \<and> (s = Summary \<longrightarrow>
             closed (workersFinishedChannel b1) \<and> filter is_summary (effects b1) = []))
      \<and> length (filter is_summary (effects b)) = 1"
    if x: "executed Summary es"
  proof -
    from executed_iff[OF assms, of 17] x have p: "17 < pc b"
      by (simp add: start_body_def)
    from trace_stmts[OF assms]
    have "map fst (coordinator_trace es New) = take (pc b) start_body" by (simp add: New_def)
    moreover from p have "min 18 (pc b) = 18" by simp
    ultimately have o: "drop 9 (take 18 (map fst (coordinator_trace es New))) =
          [Select_Done_dataFinished,
       Println ''Waiting for workers to finish...'',
       Wait_workerWait,
       Println ''All workers finished.'',
       Close_workersFinished,
       Println ''Waiting for processes to finish...'',
       Wait_mainWait,
       Println ''All processes finished.'',
       Summary]"
      by (simp add: start_body_def)
    have e: "exec [] New = Some (New :: 'a Blaster)" by simp
    have g: "(\<forall>(s, b1) \<in> set (coordinator_trace es New).
          (s = Select_Done_dataFinished \<longrightarrow> ctx_done b1 \<or> recv_ready (dataFinishedChannel b1))
        \<and> (s = Wait_workerWait \<longrightarrow> workerWait b1 = 0)
        \<and> (s = Close_workersFinished \<longrightarrow> \<not> closed (workersFinishedChannel b1))
        \<and> (s = Wait_mainWait \<longrightarrow> mainWait b1 = 0 \<and> closed (workersFinishedChannel b1))
        \<and> (s = Summary \<longrightarrow>
             closed (workersFinishedChannel b1) \<and> filter is_summary (effects b1) = []))"
      using trace_entry_facts[OF e] by blast
    from reachable_sum[OF assms] p
    have c: "length (filter is_summary (effects b)) = 1" by (simp add: sum_inv_def)
    from o g c show ?thesis by blast
  qed
  have 2: "(start_body ! pc b = Select_Done_dataFinished \<longrightarrow>
          start b = (if ctx_done b \<or> recv_ready (dataFinishedChannel b)
                     then Some (b\<lparr>pc := Suc (pc b)\<rparr>) else None))
      \<and> (start_body ! pc b = Wait_workerWait \<longrightarrow>
          start b = (if workerWait b = 0 then Some (b\<lparr>pc := Suc (pc b)\<rparr>) else None))
      \<and> (start_body ! pc b = Close_workersFinished \<longrightarrow>
          start b = Some (b\<lparr>workersFinishedChannel := (workersFinishedChannel b)\<lparr>closed := True\<rparr>,
                           pc := Suc (pc b)\<rparr>))
      \<and> (start_body ! pc b = Wait_mainWait \<longrightarrow>
          start b = (if mainWait b = 0 then Some (b\<lparr>pc := Suc (pc b)\<rparr>) else None))
      \<and> (start_body ! pc b = Summary \<longrightarrow>
          start b = Some (b\<lparr>effects := effects b @ summary (err b) (errorsIgnored b),
                           pc := Suc (pc b)\<rparr>))"
    if y: "in_start b" "returned b = None"
  proof -
    from start_unfold[OF reachable_ctl[OF assms] y]
    have p: "pc b < 19"
      and u: "start b = map_option (\<lambda>b'. b'\<lparr>pc := Suc (pc b)\<rparr>) (exec_stmt (start_body ! pc b) b)"
      by simp_all
    from reachable_wf[OF assms] at_close[OF p]
    have w: "start_body ! pc b = Close_workersFinished \<longrightarrow> \<not> closed (workersFinishedChannel b)"
      by (auto simp: wf_inv_def)
    show ?thesis
      unfolding u using w by simp
  qed
  from 1 2 show ?thesis by blast
qed

theorem shutdown_order_witness:
  "executed Summary run_ok
   \<and> drop 9 (take 18 (map fst (coordinator_trace run_ok New))) =
      [Select_Done_dataFinished,
       Println ''Waiting for workers to finish...'',
       Wait_workerWait,
       Println ''All workers finished.'',
       Close_workersFinished,
       Println ''Waiting for processes to finish...'',
       Wait_mainWait,
       Println ''All processes finished.'',
       Summary]
   \<and> executed Summary (run_busy @ Interrupt # run_shutdown)
   \<and> drop 9 (take 18 (map fst (coordinator_trace (run_busy @ Interrupt # run_shutdown) New))) =
      [Select_Done_dataFinished,
       Println ''Waiting for workers to finish...'',
       Wait_workerWait,
       Println ''All workers finished.'',
       Close_workersFinished,
       Println ''Waiting for processes to finish...'',
       Wait_mainWait,
       Println ''All processes finished.'',
       Summary]
   \<and> (\<exists>b. exec run_startup New = Some b
         \<and> start_body ! pc b = Select_Done_dataFinished \<and> start b = None)
   \<and> (\<exists>b. exec (run_startup @ [CallCancel]) New = Some b
         \<and> start_body ! pc b = Select_Done_dataFinished \<and> start b = Some (b\<lparr>pc := Suc (pc b)\<rparr>))
   \<and> (\<exists>b. exec (run_startup @ [DataFinished]) New = Some b
         \<and> start_body ! pc b = Select_Done_dataFinished \<and> start b = Some (b\<lparr>pc := Suc (pc b)\<rparr>))
   \<and> (\<exists>b. exec (run_startup @ [WorkerAdd, CallCancel, Coordinator, Coordinator]) New = Some b
         \<and> start_body ! pc b = Wait_workerWait \<and> start b = None)"
proof -
  have "map_option pc (exec run_ok New) = Some 19"
    by (simp add: run_ok_def run_defs)
  then obtain b where b: "exec run_ok New = Some b" "pc b = 19" by auto
  with executed_iff[OF b(1), of 17] have h: "executed Summary run_ok"
    by (simp add: start_body_def)
  have "map_option pc (exec (run_busy @ Interrupt # run_shutdown) New) = Some 19"
    by (simp add: run_busy_def run_shutdown_def run_defs)
  then obtain c where c: "exec (run_busy @ Interrupt # run_shutdown) New = Some c" "pc c = 19"
    by auto
  with executed_iff[OF c(1), of 17]
  have k: "executed Summary (run_busy @ Interrupt # run_shutdown)"
    by (simp add: start_body_def)
  have "map_option (\<lambda>b. (in_start b, returned b, pc b, ctx_done b,
            recv_ready (dataFinishedChannel b))) (exec run_startup New)
      = Some (True, None, 9, False, False)"
    by (simp add: run_startup_def run_defs)
  then obtain d where d: "exec run_startup New = Some d" "in_start d" "returned d = None"
    "pc d = 9" "\<not> ctx_done d" "\<not> recv_ready (dataFinishedChannel d)" by auto
  have "map_option (\<lambda>b. (in_start b, returned b, pc b, ctx_done b))
          (exec (run_startup @ [CallCancel]) New) = Some (True, None, 9, True)"
    by (simp add: run_startup_def run_defs)
  then obtain f where f: "exec (run_startup @ [CallCancel]) New = Some f" "in_start f"
    "returned f = None" "pc f = 9" "ctx_done f" by auto
  have "map_option (\<lambda>b. (in_start b, returned b, pc b, recv_ready (dataFinishedChannel b)))
          (exec (run_startup @ [DataFinished]) New) = Some (True, None, 9, True)"
    by (simp add: run_startup_def run_defs)
  then obtain g where g: "exec (run_startup @ [DataFinished]) New = Some g" "in_start g"
    "returned g = None" "pc g = 9" "recv_ready (dataFinishedChannel g)" by auto
  have "map_option (\<lambda>b. (in_start b, returned b, pc b, workerWait b))
          (exec (run_startup @ [WorkerAdd, CallCancel, Coordinator, Coordinator]) New)
      = Some (True, None, 11, 1)"
    by (simp add: run_startup_def run_defs)
  then obtain w where w:
    "exec (run_startup @ [WorkerAdd, CallCancel, Coordinator, Coordinator]) New = Some w"
    "in_start w" "returned w = None" "pc w = 11" "workerWait w = 1" by auto
  have s9: "start_body ! 9 = Select_Done_dataFinished" and s11: "start_body ! 11 = Wait_workerWait"
    by (simp_all add: start_body_def)
  from shutdown_order[OF b(1)] h
  have 1: "drop 9 (take 18 (map fst (coordinator_trace run_ok New))) =
      [Select_Done_dataFinished,
       Println ''Waiting for workers to finish...'',
       Wait_workerWait,
       Println ''All workers finished.'',
       Close_workersFinished,
       Println ''Waiting for processes to finish...'',
       Wait_mainWait,
       Println ''All processes finished.'',
       Summary]" by blast
  from shutdown_order[OF c(1)] k
  have 2: "drop 9 (take 18 (map fst (coordinator_trace (run_busy @ Interrupt # run_shutdown) New))) =
      [Select_Done_dataFinished,
       Println ''Waiting for workers to finish...'',
       Wait_workerWait,
       Println ''All workers finished.'',
       Close_workersFinished,
       Println ''Waiting for processes to finish...'',
       Wait_mainWait,
       Println ''All processes finished.'',
       Summary]" by blast
  from shutdown_order[OF d(1)] d s9
  have 3: "start_body ! pc d = Select_Done_dataFinished \<and> start d = None" by simp
  from shutdown_order[OF f(1)] f s9
  have 4: "start_body ! pc f = Select_Done_dataFinished \<and> start f = Some (f\<lparr>pc := Suc (pc f)\<rparr>)"
    by simp
  from shutdown_order[OF g(1)] g s9
  have 5: "start_body ! pc g = Select_Done_dataFinished \<and> start g = Some (g\<lparr>pc := Suc (pc g)\<rparr>)"
    by simp
  from shutdown_order[OF w(1)] w s11
  have 6: "start_body ! pc w = Wait_workerWait \<and> start w = None" by simp
  from h k 1 2 3 4 5 6 d(1) f(1) g(1) w(1) show ?thesis by blast
qed

text \<open>
  C2, as the code has it. In every run in which \<open>start\<close> has executed its summary
  statement, the effects of the run hold, once, the summary of the state in which that
  statement was executed: if a fatal error is recorded there, an empty line, then the
  count of ignored errors only if that count is greater than zero, then the fatal error;
  otherwise the call \<open>b.printStatus(true)\<close>. Exactly one of the two forms is emitted.
\<close>

theorem final_summary:
  assumes "exec es New = Some b" and "executed Summary es"
  shows "\<exists>b1 post. (Summary, b1) \<in> set (coordinator_trace es New)
      \<and> effects b = effects b1 @ summary (err b1) (errorsIgnored b1) @ post
      \<and> filter is_summary (effects b1) = [] \<and> filter is_summary post = []
      \<and> length (filter is_summary (summary (err b1) (errorsIgnored b1))) = 1
      \<and> summary (err b1) (errorsIgnored b1) =
          (case err b1 of
             Some e \<Rightarrow>
               (if 0 < errorsIgnored b1
                then [Fprintln [], Fprintf ignored_fmt [Uint64 (errorsIgnored b1)],
                      Fprintf fatal_fmt [Err e]]
                else [Fprintln [], Fprintf fatal_fmt [Err e]])
           | None \<Rightarrow> [Call (printStatus True)])"
proof -
  from executed_iff[OF assms(1), of 17] assms(2) have p: "17 < pc b"
    by (simp add: start_body_def)
  from summary_step[OF assms(1) p] obtain b1 post where
    "(Summary, b1) \<in> set (coordinator_trace es New)"
    "effects b = effects b1 @ summary (err b1) (errorsIgnored b1) @ post"
    "filter is_summary (effects b1) = []" "filter is_summary post = []" by blast
  moreover have "summary (err b1) (errorsIgnored b1) =
          (case err b1 of
             Some e \<Rightarrow>
               (if 0 < errorsIgnored b1
                then [Fprintln [], Fprintf ignored_fmt [Uint64 (errorsIgnored b1)],
                      Fprintf fatal_fmt [Err e]]
                else [Fprintln [], Fprintf fatal_fmt [Err e]])
           | None \<Rightarrow> [Call (printStatus True)])"
    by (simp add: summary_def split: option.splits)
  ultimately show ?thesis using summary_count by blast
qed

theorem final_summary_witness:
  "executed Summary run_ignored
   \<and> (\<exists>b1. (Summary, b1) \<in> set (coordinator_trace run_ignored New)
        \<and> length (filter is_summary (summary (err b1) (errorsIgnored b1))) = 1)
   \<and> map_option (\<lambda>b. drop 16 (effects b)) (exec run_ignored New) = Some
       [Fprintln [], Fprintf ignored_fmt [Uint64 2], Fprintf fatal_fmt [Err ''boom''],
        Call flushAndCloseLog, Call closeDataFile]"
proof -
  have "map_option pc (exec run_ignored New) = Some 19"
    by (simp add: run_ignored_def run_defs)
  then obtain b where b: "exec run_ignored New = Some b" "pc b = 19" by auto
  with executed_iff[OF b(1), of 17] have h: "executed Summary run_ignored"
    by (simp add: start_body_def)
  have "map_option (\<lambda>b. drop 16 (effects b)) (exec run_ignored New) = Some
       [Fprintln [], Fprintf ignored_fmt [Uint64 2], Fprintf fatal_fmt [Err ''boom''],
        Call flushAndCloseLog, Call closeDataFile]"
    by (simp add: run_ignored_def run_defs)
  with final_summary[OF b(1) h] h show ?thesis by blast
qed

text \<open>
  C2, as stated, asks for the count of ignored errors whenever a fatal error is
  reported. In the run \<open>run_fatal\<close> one failure is reported and none after it: the summary
  is the empty line and the fatal error, and no line with a count is written.
\<close>

theorem fatal_without_count:
  "map_option (\<lambda>b. (err b, errorsIgnored b, effects b)) (exec run_fatal New) = Some
    (Some ''boom'', 0,
     [Call loadConfigViper, Call openDataFile, Call openLogAndInit,
      Call (addSegment 1), Call startTickerLoop, Call startMainLoop, Call startErrorLoop,
      Call startWorkers, Call startLogLoop, Call startStatusLoop, Call startRateLoop,
      Call printRatePrompt,
      Fprintln ''Waiting for workers to finish...'', Fprintln ''All workers finished.'',
      Fprintln ''Waiting for processes to finish...'', Fprintln ''All processes finished.'',
      Fprintln [], Fprintf fatal_fmt [Err ''boom''],
      Call flushAndCloseLog, Call closeDataFile])
   \<and> \<not> (\<exists>b as. exec run_fatal New = Some b \<and> Fprintf ignored_fmt as \<in> set (effects b))"
proof -
  have e: "map_option (\<lambda>b. (err b, errorsIgnored b, effects b)) (exec run_fatal New) = Some
    (Some ''boom'', 0,
     [Call loadConfigViper, Call openDataFile, Call openLogAndInit,
      Call (addSegment 1), Call startTickerLoop, Call startMainLoop, Call startErrorLoop,
      Call startWorkers, Call startLogLoop, Call startStatusLoop, Call startRateLoop,
      Call printRatePrompt,
      Fprintln ''Waiting for workers to finish...'', Fprintln ''All workers finished.'',
      Fprintln ''Waiting for processes to finish...'', Fprintln ''All processes finished.'',
      Fprintln [], Fprintf fatal_fmt [Err ''boom''],
      Call flushAndCloseLog, Call closeDataFile])"
    by (simp add: run_fatal_def run_defs)
  have "fatal_fmt \<noteq> ignored_fmt" by (simp add: fatal_fmt_def ignored_fmt_def)
  with e show ?thesis by auto
qed

text \<open>
  C9. Whenever \<open>Start\<close> has entered \<open>start\<close> and has returned, it has returned
  \<open>nil\<close>, whether or not a fatal error was recorded: an error recorded when the summary
  statement was executed is still in \<open>b.err\<close> at the end and was written with the
  fatal-error line, and that is all that happens to it. And \<open>start\<close> does return: from
  every state in which it has been entered, cancelling the context and letting the
  executors and the consumer loops at work finish (the events of \<open>drain\<close>) brings
  \<open>Start\<close> to its return, with \<open>nil\<close>.
\<close>

theorem start_returns_nil:
  assumes "exec es New = Some b" and "in_start b"
  shows "(\<forall>r. returned b = Some r \<longrightarrow>
           r = None
         \<and> (\<exists>b1. (Summary, b1) \<in> set (coordinator_trace es New)
               \<and> (\<forall>e. err b1 = Some e \<longrightarrow>
                     err b = Some e \<and> Fprintf fatal_fmt [Err e] \<in> set (effects b))))
   \<and> (\<exists>b'. exec (CallCancel # drain b) b = Some b' \<and> returned b' = Some None)"
proof -
  have 1: "r = None
         \<and> (\<exists>b1. (Summary, b1) \<in> set (coordinator_trace es New)
               \<and> (\<forall>e. err b1 = Some e \<longrightarrow>
                     err b = Some e \<and> Fprintf fatal_fmt [Err e] \<in> set (effects b)))"
    if ret: "returned b = Some r" for r
  proof -
    from reachable_ctl[OF assms(1)] assms(2) ret have p: "pc b = 19" "r = None"
      by (auto simp: ctl_inv_def split: if_splits)
    then have "17 < pc b" by simp
    from summary_step[OF assms(1) this] obtain b1 post where
      s: "(Summary, b1) \<in> set (coordinator_trace es New)"
        "effects b = effects b1 @ summary (err b1) (errorsIgnored b1) @ post"
        "\<forall>x. err b1 = Some x \<longrightarrow> err b = Some x" by blast
    have "Fprintf fatal_fmt [Err e] \<in> set (effects b)" if "err b1 = Some e" for e
      using that s(2) by (simp add: summary_def)
    with s(1,3) p(2) show ?thesis by blast
  qed
  have c: "exec [CallCancel] b = Some (cancel b)" by simp
  from exec_to[OF assms(1) c] have "exec (es @ [CallCancel]) New = Some (cancel b)" .
  moreover from assms(2) have "in_start (cancel b)" "ctx_done (cancel b)"
    by (simp_all add: cancel_def)
  ultimately have "\<exists>b'. exec (drain (cancel b)) (cancel b) = Some b' \<and> returned b' = Some None"
    by (rule drain_returns)
  moreover have "drain (cancel b) = drain b" by (simp add: drain_def cancel_def)
  ultimately have 2: "\<exists>b'. exec (CallCancel # drain b) b = Some b' \<and> returned b' = Some None"
    by simp
  from 1 2 show ?thesis by blast
qed

theorem start_returns_nil_witness:
  "map_option (\<lambda>b. (in_start b, returned b, err b)) (exec run_fatal New)
     = Some (True, Some None, Some ''boom'')
   \<and> (\<exists>b1. (Summary, b1) \<in> set (coordinator_trace run_fatal New))"
proof -
  have e: "map_option (\<lambda>b. (in_start b, returned b, err b)) (exec run_fatal New)
     = Some (True, Some None, Some ''boom'')"
    by (simp add: run_fatal_def run_defs)
  then obtain b where b: "exec run_fatal New = Some b" "in_start b" "returned b = Some None"
    "err b = Some ''boom''" by auto
  from start_returns_nil[OF b(1,2)] b(3) e show ?thesis by blast
qed

subsection \<open>Errors and cancellation\<close>

text \<open>
  C3. In every state of a run, \<open>errorsIgnored > 0\<close> implies that a fatal error is
  recorded. \<open>Report\<close> on a state without a fatal error records its argument and leaves
  the counter; on a state with one it keeps the recorded error and adds one to the
  counter. No other event changes the counter: an event that changes it is a \<open>Report\<close>
  in a state where the fatal error is already recorded, and it leaves that error in place.
\<close>

theorem errorsIgnored_after_fatal:
  assumes "exec es New = Some b"
  shows "(0 < errorsIgnored b \<longrightarrow> err b \<noteq> None)
   \<and> (\<forall>e. case err b of
             None \<Rightarrow> err (Report e b) = Some e \<and> errorsIgnored (Report e b) = errorsIgnored b
           | Some x \<Rightarrow> err (Report e b) = Some x
                        \<and> errorsIgnored (Report e b) = errorsIgnored b + 1)
   \<and> (\<forall>ev b'. step ev b = Some b' \<and> errorsIgnored b' \<noteq> errorsIgnored b \<longrightarrow>
          (\<exists>e. ev = CallReport e) \<and> err b \<noteq> None \<and> err b' = err b)"
proof -
  from reachable_err[OF assms] have 1: "0 < errorsIgnored b \<longrightarrow> err b \<noteq> None"
    by (auto simp: err_inv_def)
  have 2: "\<forall>e. case err b of
          None \<Rightarrow> err (Report e b) = Some e \<and> errorsIgnored (Report e b) = errorsIgnored b
        | Some x \<Rightarrow> err (Report e b) = Some x
                     \<and> errorsIgnored (Report e b) = errorsIgnored b + 1"
    by (simp add: Report_def cancel_def split: option.splits)
  have 3: "(\<exists>e. ev = CallReport e) \<and> err b \<noteq> None \<and> err b' = err b"
    if a: "step ev b = Some b' \<and> errorsIgnored b' \<noteq> errorsIgnored b" for ev b'
  proof (cases ev)
    case (CallStart x)
    with a show ?thesis by (auto simp: Start_keeps split: if_splits)
  next
    case Coordinator
    with a start_keeps[of b b'] show ?thesis by auto
  qed (use a in \<open>auto simp: simple_defs Let_def split: if_splits option.splits\<close>)
  from 1 2 3 show ?thesis by blast
qed

theorem errorsIgnored_after_fatal_witness:
  "map_option (\<lambda>b. (err b, errorsIgnored b)) (exec run_reports New) = Some (Some ''first'', 1)
   \<and> (\<exists>b. exec run_reports New = Some b \<and> 0 < errorsIgnored b \<and> err b \<noteq> None
         \<and> err (Report ''third'' b) = Some ''first''
         \<and> errorsIgnored (Report ''third'' b) = 2)"
proof -
  have e: "map_option (\<lambda>b. (err b, errorsIgnored b)) (exec run_reports New)
      = Some (Some ''first'', 1)"
    by (simp add: run_reports_def run_defs)
  then obtain b where b: "exec run_reports New = Some b" "err b = Some ''first''"
    "errorsIgnored b = 1" by auto
  from errorsIgnored_after_fatal[OF b(1)] b e show ?thesis
    by (auto split: option.splits)
qed

text \<open>
  C4, as the code has it. In every state of a run: an interrupt, while the registration
  of \<open>signal.Notify\<close> stands (\<open>Exit\<close> has not been called), leaves the context cancelled or the signal
  pending for the goroutine of \<open>New\<close>; a pending signal can be taken by that goroutine,
  which then cancels, and it stays pending over every other event until the context is
  cancelled. Once the context is cancelled it stays so over every continuation of the
  run; the \<open>select\<close> of \<open>start\<close> lets \<open>start\<close> through without any other change
  of the state; and every continuation that returns from \<open>start\<close> has executed all
  remaining statements of \<open>start\<close> in program order, the same ones as a run that ends
  with the data: it waited for the executors and for the consumer loops until their
  counters were zero, and it printed one summary. If \<open>start\<close> has been entered, the run
  does come to its return once the executors and the consumer loops at work have finished
  (the events of \<open>drain\<close>).
\<close>

theorem interrupt_graceful:
  assumes "exec es New = Some b"
  shows "(notify b \<longrightarrow>
        (\<exists>b'. step Interrupt b = Some b' \<and> (ctx_done b' \<or> cancel_pending b')))
   \<and> (cancel_pending b \<longrightarrow>
        (\<exists>b'. step Goroutine_signal b = Some b' \<and> ctx_done b')
      \<and> (\<forall>e b'. step e b = Some b' \<longrightarrow> ctx_done b' \<or> cancel_pending b'))
   \<and> (ctx_done b \<longrightarrow>
        (\<forall>es' b'. exec es' b = Some b' \<longrightarrow> ctx_done b')
      \<and> (in_start b \<and> returned b = None \<and> start_body ! pc b = Select_Done_dataFinished \<longrightarrow>
            start b = Some (b\<lparr>pc := Suc (pc b)\<rparr>))
      \<and> (\<forall>es' b'. exec es' b = Some b' \<and> in_start b' \<and> returned b' \<noteq> None \<longrightarrow>
             map fst (coordinator_trace es' b) = drop (pc b) start_body
           \<and> (\<forall>(s, b1) \<in> set (coordinator_trace es' b).
                 (s = Wait_workerWait \<longrightarrow> workerWait b1 = 0)
               \<and> (s = Wait_mainWait \<longrightarrow> mainWait b1 = 0 \<and> closed (workersFinishedChannel b1)))
           \<and> length (filter is_summary (effects b')) = 1)
      \<and> (in_start b \<longrightarrow> (\<exists>b'. exec (drain b) b = Some b' \<and> returned b' = Some None)))"
proof -
  have 1: "\<exists>b'. step Interrupt b = Some b' \<and> (ctx_done b' \<or> cancel_pending b')"
    if "notify b"
    using reachable_sig[OF assms] that by (rule interrupt_step)
  have 2: "\<exists>b'. step Goroutine_signal b = Some b' \<and> ctx_done b'" if "cancel_pending b"
    using that by (simp add: cancel_pending_def cancel_def)
  have 3: "ctx_done b' \<or> cancel_pending b'" if "cancel_pending b" "step e b = Some b'" for e b'
    using that by (rule pending_step)
  have 4: "ctx_done b'" if "ctx_done b" "exec es' b = Some b'" for es' b'
    using that(2,1) by (rule ctx_done_exec)
  have 5: "start b = Some (b\<lparr>pc := Suc (pc b)\<rparr>)"
    if "ctx_done b" "in_start b" "returned b = None"
      "start_body ! pc b = Select_Done_dataFinished"
    using that reachable_ctl[OF assms]
    by (auto simp: ctl_inv_def start_def length_start_body split: if_splits)
  have 6: "map fst (coordinator_trace es' b) = drop (pc b) start_body
           \<and> (\<forall>(s, b1) \<in> set (coordinator_trace es' b).
                 (s = Wait_workerWait \<longrightarrow> workerWait b1 = 0)
               \<and> (s = Wait_mainWait \<longrightarrow> mainWait b1 = 0 \<and> closed (workersFinishedChannel b1)))
           \<and> length (filter is_summary (effects b')) = 1"
    if a: "exec es' b = Some b'" "in_start b'" "returned b' \<noteq> None" for es' b'
  proof -
    from exec_to[OF assms a(1)] have r: "exec (es @ es') New = Some b'" .
    from reachable_ctl[OF r] a(2,3) have p: "pc b' = 19"
      by (auto simp: ctl_inv_def split: if_splits)
    from trace_stmts[OF a(1)] p have "map fst (coordinator_trace es' b) = drop (pc b) start_body"
      by (simp add: length_start_body)
    moreover from reachable_sum[OF r] p have "length (filter is_summary (effects b')) = 1"
      by (simp add: sum_inv_def)
    moreover have "\<forall>(s, b1) \<in> set (coordinator_trace es' b).
                 (s = Wait_workerWait \<longrightarrow> workerWait b1 = 0)
               \<and> (s = Wait_mainWait \<longrightarrow> mainWait b1 = 0 \<and> closed (workersFinishedChannel b1))"
      using trace_entry_facts[OF assms] by blast
    ultimately show ?thesis by blast
  qed
  have 7: "\<exists>b'. exec (drain b) b = Some b' \<and> returned b' = Some None"
    if "ctx_done b" "in_start b"
    using assms that(2,1) by (rule drain_returns)
  from 1 2 3 4 5 6 7 show ?thesis by blast
qed

theorem interrupt_graceful_witness:
  "(\<exists>b. exec run_busy New = Some b \<and> notify b \<and> \<not> ctx_done b
       \<and> (\<exists>b'. step Interrupt b = Some b' \<and> (ctx_done b' \<or> cancel_pending b')))
   \<and> map_option (\<lambda>b. (ctx_done b, returned b, drop 12 (effects b)))
        (exec (run_busy @ Interrupt # run_shutdown) New) = Some
       (True, Some None,
        [Fprintln ''Waiting for workers to finish...'', Fprintln ''All workers finished.'',
         Fprintln ''Waiting for processes to finish...'', Fprintln ''All processes finished.'',
         Call (printStatus True), Call flushAndCloseLog, Call closeDataFile])"
proof -
  have "map_option (\<lambda>b. (notify b, ctx_done b)) (exec run_busy New) = Some (True, False)"
    by (simp add: run_busy_def run_defs)
  then obtain b where b: "exec run_busy New = Some b" "notify b" "\<not> ctx_done b"
    by auto
  have "map_option (\<lambda>b. (ctx_done b, returned b, drop 12 (effects b)))
        (exec (run_busy @ Interrupt # run_shutdown) New) = Some
       (True, Some None,
        [Fprintln ''Waiting for workers to finish...'', Fprintln ''All workers finished.'',
         Fprintln ''Waiting for processes to finish...'', Fprintln ''All processes finished.'',
         Call (printStatus True), Call flushAndCloseLog, Call closeDataFile])"
    by (simp add: run_busy_def run_shutdown_def run_defs)
  with interrupt_graceful[OF b(1)] b show ?thesis by blast
qed

text \<open>
  C4, as stated, is about every run. In the run \<open>run_busy\<close> followed by a call of
  \<open>Exit\<close>, \<open>signal.Stop\<close> has withdrawn the registration: \<open>start\<close> passes its
  \<open>select\<close> and waits for the two executors at work, and an interrupt that arrives then
  is not relayed to \<open>signalChannel\<close>. It ends the process: the run has no further state,
  the executors are not waited for and no summary is written.
\<close>

theorem interrupt_after_Exit:
  "map_option (\<lambda>b. (notify b, ctx_done b, start_body ! pc b, workerWait b, returned b,
        filter is_summary (effects b)))
     (exec (run_busy @ [CallExit, Coordinator, Coordinator]) New)
     = Some (False, True, Wait_workerWait, 2, None, [])
   \<and> exec (run_busy @ [CallExit, Coordinator, Coordinator, Interrupt]) New = None"
  by (simp add: run_busy_def run_defs)

subsection \<open>Rate changes and worker types\<close>

text \<open>
  C5. In every state of a run the pending-change slot \<open>changeRateChannel\<close> has capacity
  one and holds at most one rate; after \<open>SetRate r\<close> it holds \<open>r\<close> and nothing else,
  whether or not a change was pending, so that of two requests in a row the later one
  is the one pending.
\<close>

theorem rate_slot:
  assumes "exec es New = Some b"
  shows "cap (changeRateChannel b) = 1
   \<and> length (buf (changeRateChannel b)) \<le> 1
   \<and> (\<forall>r. buf (changeRateChannel (SetRate r b)) = [r])
   \<and> (\<forall>r1 r2. buf (changeRateChannel (SetRate r2 (SetRate r1 b))) = [r2])"
proof -
  from reachable_rate[OF assms] have 1: "cap (changeRateChannel b) = 1"
    "length (buf (changeRateChannel b)) \<le> 1" by (auto simp: rate_inv_def)
  have s: "buf (changeRateChannel (SetRate r c)) = [r]"
    if "cap (changeRateChannel c) = 1" "length (buf (changeRateChannel c)) \<le> 1" for r c
  proof (cases "buf (changeRateChannel c)")
    case Nil
    with that show ?thesis by (simp add: SetRate_def Let_def)
  next
    case (Cons x xs)
    with that show ?thesis by (simp add: SetRate_def Let_def)
  qed
  have c: "cap (changeRateChannel (SetRate r b)) = 1" for r
    using 1 by (simp add: SetRate_def Let_def)
  from 1 s[OF 1] s[OF c] show ?thesis by simp
qed

theorem rate_slot_witness:
  "map_option (\<lambda>b. (cap (changeRateChannel b), buf (changeRateChannel b))) (exec run_rates New)
      = Some (1, [7])
   \<and> (\<exists>b. exec run_rates New = Some b \<and> buf (changeRateChannel (SetRate 9 b)) = [9])"
proof -
  have e: "map_option (\<lambda>b. (cap (changeRateChannel b), buf (changeRateChannel b)))
      (exec run_rates New) = Some (1, [7])"
    by (simp add: run_rates_def run_defs)
  then obtain b where b: "exec run_rates New = Some b" by auto
  from rate_slot[OF b] b e show ?thesis by blast
qed

text \<open>
  C10. \<open>RegisterWorkerType key workerFunc\<close> stores \<open>workerFunc\<close> under \<open>key\<close> whatever
  the registry held before: the registry afterwards is the old one updated at \<open>key\<close>; a
  second registration under the same key replaces the first; every other key keeps its
  registration. (The map is allocated by \<open>New\<close>, line 73.)
\<close>

theorem RegisterWorkerType_stores:
  "workerTypes (RegisterWorkerType key f b) = (workerTypes b)(key \<mapsto> f)
   \<and> workerTypes (RegisterWorkerType key f b) key = Some f
   \<and> workerTypes (RegisterWorkerType key g (RegisterWorkerType key f b)) key = Some g
   \<and> workerTypes (RegisterWorkerType key g (RegisterWorkerType key f b))
       = workerTypes (RegisterWorkerType key g b)
   \<and> (\<forall>k. k \<noteq> key \<longrightarrow> workerTypes (RegisterWorkerType key f b) k = workerTypes b k)"
  by (simp add: RegisterWorkerType_def)

theorem RegisterWorkerType_stores_witness:
  "workerTypes (RegisterWorkerType ''http'' (2::nat) (RegisterWorkerType ''http'' 1
      (RegisterWorkerType ''dummy'' 0 New))) ''http'' = Some 2
   \<and> ''dummy'' \<noteq> ''http''
   \<and> workerTypes (RegisterWorkerType ''http'' (2::nat) (RegisterWorkerType ''http'' 1
      (RegisterWorkerType ''dummy'' 0 New))) ''dummy'' = Some 0
   \<and> workerTypes (RegisterWorkerType ''http'' (2::nat) (RegisterWorkerType ''http'' 1
      (RegisterWorkerType ''dummy'' 0 New))) ''grpc'' = None"
  using RegisterWorkerType_stores [of "''http''" "2::nat" "RegisterWorkerType ''http'' 1
      (RegisterWorkerType ''dummy'' 0 New)" 1]
  by (simp add: RegisterWorkerType_def New_def)

subsection \<open>Startup\<close>

text \<open>
  C6, as the code has it. In every run in which \<open>start\<close> has reached its \<open>select\<close>,
  the first nine statements it executed are, in this order: \<open>addSegment\<close>, then the
  starts of the ticker loop, the main loop, the error loop, the workers, the log loop,
  the status loop and the rate loop, then \<open>printRatePrompt\<close>. The components are so
  started in the order Rate Controller, Dispatch Loop, Error Escalator, Worker Pool,
  Logging Pipeline, Status Reporter. Every statement of \<open>start\<close> is executed after the
  three calls of \<open>Start\<close> that load the configuration, open the data file and open the
  log.
\<close>

theorem startup_order:
  assumes "exec es New = Some (b :: 'w Blaster)" and "executed (Invoke printRatePrompt) es"
  shows "take 9 (map fst (coordinator_trace es (New :: 'w Blaster))) =
      [AddSegment, Invoke startTickerLoop, Invoke startMainLoop, Invoke startErrorLoop, Invoke startWorkers,
       Invoke startLogLoop, Invoke startStatusLoop, Invoke startRateLoop, Invoke printRatePrompt]
   \<and> components_started es =
      [RateController, DispatchLoop, ErrorEscalator, WorkerPool, LoggingPipeline, StatusReporter]
   \<and> (\<forall>(s, b1) \<in> set (coordinator_trace es (New :: 'w Blaster)).
         \<exists>xs. effects b1 = [Call loadConfigViper, Call openDataFile, Call openLogAndInit] @ xs)"
proof -
  from executed_iff[OF assms(1), of 8] assms(2) have p: "8 < pc b"
    by (simp add: start_body_def)
  from trace_stmts[OF assms(1)]
  have t: "map fst (coordinator_trace es (New :: 'w Blaster)) = take (pc b) start_body"
    by (simp add: New_def)
  from p have "min 9 (pc b) = 9" by simp
  with t have 1: "take 9 (map fst (coordinator_trace es (New :: 'w Blaster))) =
      [AddSegment, Invoke startTickerLoop, Invoke startMainLoop, Invoke startErrorLoop, Invoke startWorkers,
       Invoke startLogLoop, Invoke startStatusLoop, Invoke startRateLoop, Invoke printRatePrompt]"
    by (simp add: start_body_def)
  from t components_take[OF p] have 2: "components_started es =
      [RateController, DispatchLoop, ErrorEscalator, WorkerPool, LoggingPipeline, StatusReporter]"
    by (simp add: components_started_def)
  have e: "exec [] New = Some (New :: 'w Blaster)" by simp
  have 3: "\<forall>(s, b1) \<in> set (coordinator_trace es (New :: 'w Blaster)).
         \<exists>xs. effects b1 = [Call loadConfigViper, Call openDataFile, Call openLogAndInit] @ xs"
    using trace_entry_facts[OF e] unfolding prelude_def by blast
  from 1 2 3 show ?thesis by blast
qed

theorem startup_order_witness:
  "executed (Invoke printRatePrompt) run_ok
   \<and> components_started run_ok =
      [RateController, DispatchLoop, ErrorEscalator, WorkerPool, LoggingPipeline, StatusReporter]"
proof -
  have "map_option pc (exec run_ok New) = Some 19"
    by (simp add: run_ok_def run_defs)
  then obtain b where b: "exec run_ok New = Some b" "pc b = 19" by auto
  with executed_iff[OF b(1), of 8] have h: "executed (Invoke printRatePrompt) run_ok"
    by (simp add: start_body_def)
  from startup_order[OF b(1) h] h show ?thesis by blast
qed

text \<open>
  C6, as stated, has the Error Escalator started after the Worker Pool and the Logging
  Pipeline. In the run \<open>run_startup\<close> the error loop is the third loop started, before the
  workers and the log loop.
\<close>

theorem startup_order_differs:
  "map fst (coordinator_trace run_startup New) =
      [AddSegment, Invoke startTickerLoop, Invoke startMainLoop, Invoke startErrorLoop, Invoke startWorkers,
       Invoke startLogLoop, Invoke startStatusLoop, Invoke startRateLoop, Invoke printRatePrompt]
   \<and> components_started run_startup =
      [RateController, DispatchLoop, ErrorEscalator, WorkerPool, LoggingPipeline, StatusReporter]
   \<and> components_started run_startup \<noteq> spec_startup_order"
  by (simp add: components_started_def run_startup_def run_defs map_filter_def
      spec_startup_order_def)

text \<open>
  C7. When \<open>Start\<close> is called with a configuration that does not load or whose data
  file is empty, it returns an error (the error of \<open>loadConfigViper\<close>, or else the one
  that says that no data file is specified); the only call it has made is
  \<open>loadConfigViper\<close>, so neither the source nor the log was opened; \<open>start\<close> is not
  entered, and nothing that happens afterwards executes a statement of \<open>start\<close> or adds
  an effect.
\<close>

theorem Start_missing_config:
  assumes "exec es New = Some b" and "step (CallStart ev) b = Some b'"
    and "loadConfigViper_err ev \<noteq> None \<or> loaded_Data ev = []"
  shows "returned b' =
           Some (case loadConfigViper_err ev of Some e \<Rightarrow> Some e | None \<Rightarrow> Some no_data_file)
   \<and> effects b' = [Call loadConfigViper]
   \<and> \<not> in_start b'
   \<and> (\<forall>es' b''. exec es' b' = Some b'' \<longrightarrow>
         coordinator_trace es' b' = [] \<and> effects b'' = [Call loadConfigViper]
       \<and> returned b'' = returned b' \<and> \<not> in_start b'')"
proof -
  from assms(2) have f: "returned b = None" "\<not> in_start b" and b': "b' = Start ev b"
    by (auto split: if_splits)
  from reachable_ctl[OF assms(1)] f have g: "effects b = []" "deferred b = []"
    by (auto simp: ctl_inv_def)
  from Start_result[OF f, of ev] assms(3) b'
  have 1: "returned b' =
           Some (case loadConfigViper_err ev of Some e \<Rightarrow> Some e | None \<Rightarrow> Some no_data_file)"
    and 2: "\<not> in_start b'"
    by (auto split: option.splits)
  from Start_effects[OF g, of ev] assms(3) b' have 3: "effects b' = [Call loadConfigViper]"
    by (auto split: option.splits)
  from 1 have r: "returned b' \<noteq> None" by simp
  have 4: "coordinator_trace es' b' = [] \<and> effects b'' = [Call loadConfigViper]
       \<and> returned b'' = returned b' \<and> \<not> in_start b''" if "exec es' b' = Some b''" for es' b''
    using failed_start_stays[OF that 2 r] 3 by simp
  from 1 2 3 4 show ?thesis by blast
qed

theorem Start_missing_config_witness:
  "(\<exists>b'. step (CallStart env_no_data) (New :: nat Blaster) = Some b'
      \<and> returned b' = Some (Some no_data_file) \<and> effects b' = [Call loadConfigViper]
      \<and> \<not> in_start b' \<and> step Coordinator b' = None)"
proof -
  have e: "exec [] New = Some (New :: nat Blaster)" by simp
  have s: "step (CallStart env_no_data) (New :: nat Blaster) = Some (Start env_no_data New)"
    by (simp add: New_def)
  have h: "loadConfigViper_err env_no_data \<noteq> None \<or> loaded_Data env_no_data = []"
    by (simp add: env_no_data_def)
  from Start_missing_config[OF e s h] s show ?thesis
    by (simp add: env_no_data_def start_def)
qed

end
